theory Spec2Isabelle
  imports Main "HOL-Library.Word" "HOL-Library.Code_Target_Nat"
begin

unbundle bit_operations_syntax

section \<open>Raw memory and typed access\<close>

text \<open>
  The functions of \<^verbatim>\<open>utilities/copy.cpp\<close> work on raw memory given by address and
  length. An address, a \<^verbatim>\<open>uintptr_t\<close> and a \<^verbatim>\<open>size_t\<close> are 64-bit words (LP64); pointer
  arithmetic is word arithmetic. Memory is a total function from addresses to bytes.
\<close>

type_synonym addr = "64 word"
type_synonym byte = "8 word"
type_synonym mem = "addr \<Rightarrow> byte"

text \<open>
  The byte order of the host decides which bytes a typed load or store of a multi-byte
  value moves. It is a property of the platform the shared code is compiled for, so it is
  a parameter of the model.
\<close>

datatype byte_order = LittleEndian | BigEndian

text \<open>\<^verbatim>\<open>sizeof(T)\<close> for an unsigned integer type of \<open>LENGTH('a)\<close> bits.\<close>

definition sizeof :: "'a::len itself \<Rightarrow> nat" where
  "sizeof T = LENGTH('a) div 8"

text \<open>
  The object representation of a value: its \<^verbatim>\<open>sizeof(T)\<close> bytes in address order, and
  the value an object representation stands for.
\<close>

definition object_bytes :: "byte_order \<Rightarrow> 'a::len word \<Rightarrow> byte list" where
  "object_bytes bo v =
     (let le = map (\<lambda>i. ucast (drop_bit (8 * i) v)) [0..<sizeof TYPE('a)]
      in case bo of LittleEndian \<Rightarrow> le | BigEndian \<Rightarrow> rev le)"

definition object_value :: "byte_order \<Rightarrow> byte list \<Rightarrow> 'a::len word" where
  "object_value bo bs =
     word_rcat (case bo of LittleEndian \<Rightarrow> rev bs | BigEndian \<Rightarrow> bs)"

text \<open>A typed load \<^verbatim>\<open>*(T*)p\<close> and a typed store \<^verbatim>\<open>*(T*)p = v\<close>: one access of
  \<^verbatim>\<open>sizeof(T)\<close> bytes.\<close>

definition load :: "byte_order \<Rightarrow> addr \<Rightarrow> mem \<Rightarrow> 'a::len word" where
  "load bo p m = object_value bo (map (\<lambda>i. m (p + of_nat i)) [0..<sizeof TYPE('a)])"

definition store :: "byte_order \<Rightarrow> addr \<Rightarrow> 'a::len word \<Rightarrow> mem \<Rightarrow> mem" where
  "store bo p v m =
     (\<lambda>x. if unat (x - p) < sizeof TYPE('a) then object_bytes bo v ! unat (x - p) else m x)"

text \<open>
  \<^verbatim>\<open>memcpy\<close> between memory and a local variable, byte after byte:
  \<^verbatim>\<open>memcpy(&tmp, p, n)\<close> yields the object representation of the local, and
  \<^verbatim>\<open>memcpy(p, &tmp, n)\<close> writes one to memory.
\<close>

primrec memcpy_from :: "addr \<Rightarrow> nat \<Rightarrow> mem \<Rightarrow> byte list" where
  "memcpy_from p 0 m = []"
| "memcpy_from p (Suc n) m = m p # memcpy_from (p + 1) n m"

primrec memcpy_to :: "addr \<Rightarrow> byte list \<Rightarrow> mem \<Rightarrow> mem" where
  "memcpy_to p [] m = m"
| "memcpy_to p (b # bs) m = memcpy_to (p + 1) bs (m(p := b))"

text \<open>
  Modelled from the spec: \<^verbatim>\<open>byteswap\<close> of \<^verbatim>\<open>utilities/byteswap.hpp\<close>, which is not among
  the sources at hand. The spec: "reverse the byte order of the loaded value". Byte \<open>i\<close>
  of the result, counted from the least significant one, is byte \<open>sizeof(T) - 1 - i\<close> of
  the argument.
\<close>

definition byteswap :: "'a::len word \<Rightarrow> 'a word" where
  "byteswap v = word_rcat (map (\<lambda>i. ucast (drop_bit (8 * i) v) :: byte) [0..<sizeof TYPE('a)])"

text \<open>
  Modelled from the spec: \<^verbatim>\<open>is_aligned\<close> of \<^verbatim>\<open>utilities/align.hpp\<close>, which is not among
  the sources at hand. The spec: "\<^verbatim>\<open>byteCount\<close> is a multiple of \<^verbatim>\<open>elementWidth\<close>", "its
  address is a multiple of \<^verbatim>\<open>elementWidth\<close>".
\<close>

definition is_aligned :: "addr \<Rightarrow> addr \<Rightarrow> bool" where
  "is_aligned x alignment = (x mod alignment = 0)"

text \<open>
  Modelled from the spec: the macros \<^verbatim>\<open>assert\<close> and \<^verbatim>\<open>guarantee\<close> of
  \<^verbatim>\<open>utilities/debug.hpp\<close>, which is not among the sources at hand. The spec: contract
  violations "are programming errors detected via assertion-style checks and are fatal:
  they abort the process with a diagnostic message". A failed check is the value
  \<open>Inl\<close> of the diagnostic: the format string of the source and its arguments.
\<close>

datatype fatal = AssertFailed string "addr list" | GuaranteeFailed string "addr list"

text \<open>
  What a run does to memory is observed in two ways: by the memory it leaves, and by the
  trace of its accesses, in the order in which it makes them. An access is a typed load
  or store of the given number of bytes at an address, or a \<^verbatim>\<open>memcpy\<close> of that many bytes
  out of or into memory. Each function that reads or writes memory appends its accesses to
  the trace; the trace has no influence on the memory.
\<close>

datatype access = Load addr nat | Store addr nat | MemcpyFrom addr nat | MemcpyTo addr nat

type_synonym trace = "access list"


section \<open>\<^verbatim>\<open>CopySwap\<close>: conjoint copy with optional byte swap\<close>

datatype CopyDirection = RIGHT | LEFT

text \<open>
  The \<^verbatim>\<open>for\<close> loop of \<^verbatim>\<open>do_conjoint_swap<T, D, swap, is_src_aligned, is_dst_aligned>\<close>
  (lines 119 to 148), with the loop variables \<^verbatim>\<open>cur_src\<close>, \<^verbatim>\<open>cur_dst\<close> and \<^verbatim>\<open>i\<close> as
  arguments; \<open>count\<close> is \<^verbatim>\<open>byte_count / sizeof(T)\<close>. Each iteration appends its read
  and its write to the trace.
\<close>

function do_conjoint_swap_for ::
  "'a::len itself \<Rightarrow> CopyDirection \<Rightarrow> bool \<Rightarrow> bool \<Rightarrow> bool \<Rightarrow> byte_order \<Rightarrow>
   addr \<Rightarrow> addr \<Rightarrow> addr \<Rightarrow> addr \<Rightarrow> trace \<Rightarrow> mem \<Rightarrow> trace \<times> mem" where
  "do_conjoint_swap_for T D swap is_src_aligned is_dst_aligned bo cur_src cur_dst i count tr m =
     (if i < count then
        let tmp = (if is_src_aligned then load bo cur_src m
                   else object_value bo (memcpy_from cur_src (sizeof T) m)) :: 'a word;
            tr = tr @ [if is_src_aligned then Load cur_src (sizeof T)
                       else MemcpyFrom cur_src (sizeof T)];
            tmp = (if swap then byteswap tmp else tmp);
            m = (if is_dst_aligned then store bo cur_dst tmp m
                 else memcpy_to cur_dst (object_bytes bo tmp) m);
            tr = tr @ [if is_dst_aligned then Store cur_dst (sizeof T)
                       else MemcpyTo cur_dst (sizeof T)];
            cur_src = (case D of RIGHT \<Rightarrow> cur_src + of_nat (sizeof T)
                               | LEFT \<Rightarrow> cur_src - of_nat (sizeof T));
            cur_dst = (case D of RIGHT \<Rightarrow> cur_dst + of_nat (sizeof T)
                               | LEFT \<Rightarrow> cur_dst - of_nat (sizeof T))
        in do_conjoint_swap_for T D swap is_src_aligned is_dst_aligned bo cur_src cur_dst
             (i + 1) count tr m
      else (tr, m))"
  by pat_completeness auto
termination
proof -
  have step: "unat count - unat (i + 1) < unat count - unat i" if "i < count"
    for i count :: addr
  proof -
    from that have "unat i < unat count" "unat (i + 1) = unat i + 1"
      by unat_arith+
    then show ?thesis by simp
  qed
  show ?thesis
    by (relation "measure (\<lambda>(T, D, swap, sa, da, bo, cur_src, cur_dst, i, count, tr, m).
                    unat count - unat i)")
      (simp_all add: step)
qed

text \<open>
  \<^verbatim>\<open>do_conjoint_swap<T, D, swap, is_src_aligned, is_dst_aligned>(src, dst, byte_count)\<close>
  (lines 103 to 149): the start of the traversal, then the loop, from the empty trace.
\<close>

definition do_conjoint_swap_elems ::
  "'a::len itself \<Rightarrow> CopyDirection \<Rightarrow> bool \<Rightarrow> bool \<Rightarrow> bool \<Rightarrow> byte_order \<Rightarrow>
   addr \<Rightarrow> addr \<Rightarrow> addr \<Rightarrow> mem \<Rightarrow> trace \<times> mem" where
  "do_conjoint_swap_elems T D swap is_src_aligned is_dst_aligned bo src dst byte_count m =
     (let cur_src = (case D of RIGHT \<Rightarrow> src
                             | LEFT \<Rightarrow> src + byte_count - of_nat (sizeof T));
          cur_dst = (case D of RIGHT \<Rightarrow> dst
                             | LEFT \<Rightarrow> dst + byte_count - of_nat (sizeof T))
      in do_conjoint_swap_for T D swap is_src_aligned is_dst_aligned bo cur_src cur_dst
           0 (byte_count div of_nat (sizeof T)) [] m)"

text \<open>\<^verbatim>\<open>do_conjoint_swap<T, direction, swap>(src, dst, byte_count)\<close> (lines 162 to 177).\<close>

definition do_conjoint_swap_T ::
  "'a::len itself \<Rightarrow> CopyDirection \<Rightarrow> bool \<Rightarrow> byte_order \<Rightarrow>
   addr \<Rightarrow> addr \<Rightarrow> addr \<Rightarrow> mem \<Rightarrow> trace \<times> mem" where
  "do_conjoint_swap_T T direction swap bo src dst byte_count m =
     (if is_aligned src (of_nat (sizeof T)) then
        if is_aligned dst (of_nat (sizeof T)) then
          do_conjoint_swap_elems T direction swap True True bo src dst byte_count m
        else
          do_conjoint_swap_elems T direction swap True False bo src dst byte_count m
      else
        if is_aligned dst (of_nat (sizeof T)) then
          do_conjoint_swap_elems T direction swap False True bo src dst byte_count m
        else
          do_conjoint_swap_elems T direction swap False False bo src dst byte_count m)"

text \<open>\<^verbatim>\<open>do_conjoint_swap<D, swap>(src, dst, byte_count, elem_size)\<close> (lines 191 to 199).\<close>

definition do_conjoint_swap ::
  "CopyDirection \<Rightarrow> bool \<Rightarrow> byte_order \<Rightarrow> addr \<Rightarrow> addr \<Rightarrow> addr \<Rightarrow> addr \<Rightarrow> mem \<Rightarrow>
   fatal + trace \<times> mem" where
  "do_conjoint_swap D swap bo src dst byte_count elem_size m =
     (if elem_size = 2 then Inr (do_conjoint_swap_T TYPE(16) D swap bo src dst byte_count m)
      else if elem_size = 4 then
        Inr (do_conjoint_swap_T TYPE(32) D swap bo src dst byte_count m)
      else if elem_size = 8 then
        Inr (do_conjoint_swap_T TYPE(64) D swap bo src dst byte_count m)
      else Inl (GuaranteeFailed ''do_conjoint_swap: Invalid elem_size %zu\<newline>'' [elem_size]))"

text \<open>\<^verbatim>\<open>conjoint_swap_if_needed<swap>(src, dst, byte_count, elem_size)\<close> (lines 67 to 83).\<close>

definition conjoint_swap_if_needed ::
  "bool \<Rightarrow> byte_order \<Rightarrow> addr \<Rightarrow> addr \<Rightarrow> addr \<Rightarrow> addr \<Rightarrow> mem \<Rightarrow>
   fatal + trace \<times> mem" where
  "conjoint_swap_if_needed swap bo src dst byte_count elem_size m =
     (if \<not> src \<noteq> 0 then Inl (AssertFailed ''address must not be null'' [])
      else if \<not> dst \<noteq> 0 then Inl (AssertFailed ''address must not be null'' [])
      else if \<not> (elem_size = 2 \<or> elem_size = 4 \<or> elem_size = 8) then
        Inl (AssertFailed ''incorrect element size: %zu'' [elem_size])
      else if \<not> is_aligned byte_count elem_size then
        Inl (AssertFailed ''byte_count %zu must be multiple of element size %zu''
               [byte_count, elem_size])
      else
        let src_end = src + byte_count
        in if dst \<le> src \<or> dst \<ge> src_end then
             do_conjoint_swap RIGHT swap bo src dst byte_count elem_size m
           else
             do_conjoint_swap LEFT swap bo src dst byte_count elem_size m)"

text \<open>
  \<^verbatim>\<open>Copy::conjoint_copy\<close> and \<^verbatim>\<open>Copy::conjoint_swap\<close> (lines 202 to 208): the call of
  \<^verbatim>\<open>conjoint_swap_if_needed\<close>. Their value is the failure of the call, or the memory that
  the call leaves.
\<close>

definition conjoint_copy ::
  "byte_order \<Rightarrow> addr \<Rightarrow> addr \<Rightarrow> addr \<Rightarrow> addr \<Rightarrow> mem \<Rightarrow> fatal + mem" where
  "conjoint_copy bo src dst byte_count elem_size m =
     (case conjoint_swap_if_needed False bo src dst byte_count elem_size m of
        Inl failure \<Rightarrow> Inl failure
      | Inr (tr, m') \<Rightarrow> Inr m')"

definition conjoint_swap ::
  "byte_order \<Rightarrow> addr \<Rightarrow> addr \<Rightarrow> addr \<Rightarrow> addr \<Rightarrow> mem \<Rightarrow> fatal + mem" where
  "conjoint_swap bo src dst byte_count elem_size m =
     (case conjoint_swap_if_needed True bo src dst byte_count elem_size m of
        Inl failure \<Rightarrow> Inl failure
      | Inr (tr, m') \<Rightarrow> Inr m')"


section \<open>Atomic copy and fill\<close>

text \<open>
  Modelled from the spec: \<^verbatim>\<open>Copy::conjoint_jlongs_atomic\<close>, \<^verbatim>\<open>Copy::conjoint_jints_atomic\<close>,
  \<^verbatim>\<open>Copy::conjoint_jshorts_atomic\<close> and \<^verbatim>\<open>Copy::conjoint_jbytes\<close>, which
  \<^verbatim>\<open>utilities/copy.hpp\<close> and the platform files define and which are not among the sources
  at hand. The spec: "copies \<^verbatim>\<open>size\<close> bytes left-to-right"; "loop over \<^verbatim>\<open>size/U\<close> units of
  width U, each read then written with a single typed load/store. U==1 degenerates to a
  plain byte loop".
\<close>

definition conjoint_units_atomic ::
  "'a::len itself \<Rightarrow> byte_order \<Rightarrow> addr \<Rightarrow> addr \<Rightarrow> addr \<Rightarrow> mem \<Rightarrow> trace \<times> mem" where
  "conjoint_units_atomic T bo from to count m =
     fold (\<lambda>i (tr, m).
             (tr @ [Load (from + of_nat (i * sizeof T)) (sizeof T),
                    Store (to + of_nat (i * sizeof T)) (sizeof T)],
              store bo (to + of_nat (i * sizeof T))
                (load bo (from + of_nat (i * sizeof T)) m :: 'a word) m))
          [0..<unat count] ([], m)"

text \<open>Modelled from the spec: \<^verbatim>\<open>Copy::conjoint_jlongs_atomic\<close>, the loop above with units
  of 8 bytes.\<close>

definition conjoint_jlongs_atomic ::
  "byte_order \<Rightarrow> addr \<Rightarrow> addr \<Rightarrow> addr \<Rightarrow> mem \<Rightarrow> trace \<times> mem" where
  "conjoint_jlongs_atomic bo from to count m = conjoint_units_atomic TYPE(64) bo from to count m"

text \<open>Modelled from the spec: \<^verbatim>\<open>Copy::conjoint_jints_atomic\<close>, the loop above with units
  of 4 bytes.\<close>

definition conjoint_jints_atomic ::
  "byte_order \<Rightarrow> addr \<Rightarrow> addr \<Rightarrow> addr \<Rightarrow> mem \<Rightarrow> trace \<times> mem" where
  "conjoint_jints_atomic bo from to count m = conjoint_units_atomic TYPE(32) bo from to count m"

text \<open>Modelled from the spec: \<^verbatim>\<open>Copy::conjoint_jshorts_atomic\<close>, the loop above with
  units of 2 bytes.\<close>

definition conjoint_jshorts_atomic ::
  "byte_order \<Rightarrow> addr \<Rightarrow> addr \<Rightarrow> addr \<Rightarrow> mem \<Rightarrow> trace \<times> mem" where
  "conjoint_jshorts_atomic bo from to count m = conjoint_units_atomic TYPE(16) bo from to count m"

text \<open>Modelled from the spec: \<^verbatim>\<open>Copy::conjoint_jbytes\<close>, the "plain byte loop".\<close>

definition conjoint_jbytes :: "addr \<Rightarrow> addr \<Rightarrow> addr \<Rightarrow> mem \<Rightarrow> trace \<times> mem" where
  "conjoint_jbytes from to count m =
     fold (\<lambda>i (tr, m).
             (tr @ [Load (from + of_nat i) 1, Store (to + of_nat i) 1],
              m(to + of_nat i := m (from + of_nat i))))
          [0..<unat count] ([], m)"

text \<open>
  \<^verbatim>\<open>Copy::conjoint_memory_atomic(from, to, size)\<close> (lines 32 to 53);
  \<^verbatim>\<open>sizeof(jlong)\<close>, \<^verbatim>\<open>sizeof(jint)\<close> and \<^verbatim>\<open>sizeof(jshort)\<close> are 8, 4 and 2. The
  parameter \<^verbatim>\<open>size\<close> is written \<open>size'\<close>, since \<open>size\<close> is a constant of HOL.
\<close>

definition conjoint_memory_atomic_traced ::
  "byte_order \<Rightarrow> addr \<Rightarrow> addr \<Rightarrow> addr \<Rightarrow> mem \<Rightarrow> trace \<times> mem" where
  "conjoint_memory_atomic_traced bo from to size' m =
     (let bits = from OR to OR size'
      in if bits mod 8 = 0 then conjoint_jlongs_atomic bo from to (size' div 8) m
         else if bits mod 4 = 0 then conjoint_jints_atomic bo from to (size' div 4) m
         else if bits mod 2 = 0 then conjoint_jshorts_atomic bo from to (size' div 2) m
         else conjoint_jbytes from to size' m)"

text \<open>The memory that \<^verbatim>\<open>Copy::conjoint_memory_atomic\<close> leaves.\<close>

definition conjoint_memory_atomic :: "byte_order \<Rightarrow> addr \<Rightarrow> addr \<Rightarrow> addr \<Rightarrow> mem \<Rightarrow> mem" where
  "conjoint_memory_atomic bo from to size' m = snd (conjoint_memory_atomic_traced bo from to size' m)"

text \<open>
  The fill patterns of \<^verbatim>\<open>fill_to_memory_atomic\<close>: lines 215 to 220 (\<^verbatim>\<open>jlong\<close>), 226 to
  230 (\<^verbatim>\<open>jint\<close>) and 236 to 237 (\<^verbatim>\<open>jshort\<close>). The arithmetic wraps at the width of the
  type.
\<close>

definition fill_jlong :: "byte \<Rightarrow> 64 word" where
  "fill_jlong value =
     (let fill = ucast value :: 64 word
      in if fill \<noteq> 0 then
           let fill = fill + push_bit 8 fill;
               fill = fill + push_bit 16 fill;
               fill = fill + push_bit 32 fill
           in fill
         else fill)"

definition fill_jint :: "byte \<Rightarrow> 32 word" where
  "fill_jint value =
     (let fill = ucast value :: 32 word
      in if fill \<noteq> 0 then
           let fill = fill + push_bit 8 fill;
               fill = fill + push_bit 16 fill
           in fill
         else fill)"

definition fill_jshort :: "byte \<Rightarrow> 16 word" where
  "fill_jshort value =
     (let fill = ucast value :: 16 word
      in fill + push_bit 8 fill)"

text \<open>
  The fill loops \<^verbatim>\<open>for (uintptr_t off = 0; off < size; off += sizeof(T))\<close> (lines 222,
  232, 239 and 250). The counter is a 64-bit word and wraps; a loop that does not
  terminate has the value \<open>None\<close>. The unfolding equation of the loop is its code
  equation.
\<close>

partial_function (option) fill_for ::
  "byte_order \<Rightarrow> addr \<Rightarrow> 'a::len word \<Rightarrow> addr \<Rightarrow> addr \<Rightarrow> trace \<Rightarrow> mem \<Rightarrow>
   (trace \<times> mem) option" where
  "fill_for bo dst fill size' off tr m =
     (if off < size' then
        fill_for bo dst fill size' (off + of_nat (sizeof TYPE('a)))
          (tr @ [Store (dst + off) (sizeof TYPE('a))]) (store bo (dst + off) fill m)
      else Some (tr, m))"

declare fill_for.simps [code]

text \<open>
  Modelled from the spec: \<^verbatim>\<open>Copy::fill_to_bytes\<close> of \<^verbatim>\<open>utilities/copy.hpp\<close>, which is not
  among the sources at hand. The spec: "fills \<^verbatim>\<open>size\<close> bytes with the repeated byte
  pattern"; the unit of one byte is "a plain byte loop". It is the loop that the source
  itself has in the \<^verbatim>\<open>MUSL_LIBC\<close> variant of the same branch (lines 249 to 252).
\<close>

definition fill_to_bytes ::
  "byte_order \<Rightarrow> addr \<Rightarrow> addr \<Rightarrow> byte \<Rightarrow> mem \<Rightarrow> (trace \<times> mem) option" where
  "fill_to_bytes bo to size' value m = fill_for bo to value size' 0 [] m"

text \<open>
  \<^verbatim>\<open>Copy::fill_to_memory_atomic(to, size, value)\<close> (lines 211 to 257), with the last
  branch as a build without \<^verbatim>\<open>MUSL_LIBC\<close> has it.
\<close>

definition fill_to_memory_atomic_traced ::
  "byte_order \<Rightarrow> addr \<Rightarrow> addr \<Rightarrow> byte \<Rightarrow> mem \<Rightarrow> (trace \<times> mem) option" where
  "fill_to_memory_atomic_traced bo to size' value m =
     (let dst = to;
          bits = to OR size'
      in if bits mod 8 = 0 then fill_for bo dst (fill_jlong value) size' 0 [] m
         else if bits mod 4 = 0 then fill_for bo dst (fill_jint value) size' 0 [] m
         else if bits mod 2 = 0 then fill_for bo dst (fill_jshort value) size' 0 [] m
         else fill_to_bytes bo dst size' value m)"

text \<open>The memory that \<^verbatim>\<open>Copy::fill_to_memory_atomic\<close> leaves, if it returns.\<close>

definition fill_to_memory_atomic ::
  "byte_order \<Rightarrow> addr \<Rightarrow> addr \<Rightarrow> byte \<Rightarrow> mem \<Rightarrow> mem option" where
  "fill_to_memory_atomic bo to size' value m =
     map_option snd (fill_to_memory_atomic_traced bo to size' value m)"


section \<open>Specification-level notions\<close>

text \<open>
  A range of \<open>n\<close> bytes at \<open>p\<close> is valid when it lies in the address space: it does
  not wrap around the highest address.
\<close>

definition valid_range :: "addr \<Rightarrow> addr \<Rightarrow> bool" where
  "valid_range p n = (unat p + unat n \<le> 2 ^ 64)"

text \<open>An address lies in the range of \<open>n\<close> bytes at \<open>p\<close>.\<close>

definition in_range :: "addr \<Rightarrow> addr \<Rightarrow> addr \<Rightarrow> bool" where
  "in_range p n x = (unat (x - p) < unat n)"

text \<open>The preconditions of the element copy (section 4.3 of the spec).\<close>

definition preconditions :: "addr \<Rightarrow> addr \<Rightarrow> addr \<Rightarrow> addr \<Rightarrow> bool" where
  "preconditions src dst byte_count elem_size =
     (src \<noteq> 0 \<and> dst \<noteq> 0 \<and> (elem_size = 2 \<or> elem_size = 4 \<or> elem_size = 8) \<and>
      unat byte_count mod unat elem_size = 0)"

text \<open>
  The transfer of one element at byte level: the \<open>w\<close> bytes at \<open>s\<close> are read, reversed
  when \<open>swap\<close> is set, and written at \<open>d\<close>.
\<close>

definition copy_elem :: "nat \<Rightarrow> bool \<Rightarrow> addr \<Rightarrow> addr \<Rightarrow> mem \<Rightarrow> mem" where
  "copy_elem w swap s d m =
     (\<lambda>x. if unat (x - d) < w
          then m (s + of_nat (if swap then w - 1 - unat (x - d) else unat (x - d)))
          else m x)"

text \<open>\<open>k\<close> iterations of the loop of \<^verbatim>\<open>do_conjoint_swap\<close> at byte level.\<close>

primrec copy_elems ::
  "CopyDirection \<Rightarrow> nat \<Rightarrow> bool \<Rightarrow> nat \<Rightarrow> addr \<Rightarrow> addr \<Rightarrow> mem \<Rightarrow> mem" where
  "copy_elems D w swap 0 s d m = m"
| "copy_elems D w swap (Suc k) s d m =
     copy_elems D w swap k
       (case D of RIGHT \<Rightarrow> s + of_nat w | LEFT \<Rightarrow> s - of_nat w)
       (case D of RIGHT \<Rightarrow> d + of_nat w | LEFT \<Rightarrow> d - of_nat w)
       (copy_elem w swap s d m)"

text \<open>The accesses of \<open>k\<close> iterations of that loop.\<close>

primrec elem_accesses ::
  "CopyDirection \<Rightarrow> nat \<Rightarrow> bool \<Rightarrow> bool \<Rightarrow> nat \<Rightarrow> addr \<Rightarrow> addr \<Rightarrow> trace" where
  "elem_accesses D w src_aligned dst_aligned 0 s d = []"
| "elem_accesses D w src_aligned dst_aligned (Suc k) s d =
     (if src_aligned then Load s w else MemcpyFrom s w) #
     (if dst_aligned then Store d w else MemcpyTo d w) #
     elem_accesses D w src_aligned dst_aligned k
       (case D of RIGHT \<Rightarrow> s + of_nat w | LEFT \<Rightarrow> s - of_nat w)
       (case D of RIGHT \<Rightarrow> d + of_nat w | LEFT \<Rightarrow> d - of_nat w)"

text \<open>
  The trace of an element copy that takes the elements of width \<open>w\<close> in the given order
  of their positions: each element is read at the source, then written at the
  destination, by a typed access where the address of the range is a multiple of \<open>w\<close>
  and by \<^verbatim>\<open>memcpy\<close> where it is not.
\<close>

definition transfers :: "nat \<Rightarrow> addr \<Rightarrow> addr \<Rightarrow> nat list \<Rightarrow> trace" where
  "transfers w src dst order =
     concat (map (\<lambda>i. [(if is_aligned src (of_nat w) then Load else MemcpyFrom)
                          (src + of_nat (i * w)) w,
                        (if is_aligned dst (of_nat w) then Store else MemcpyTo)
                          (dst + of_nat (i * w)) w])
                 order)"

text \<open>
  The trace of a fill, and of a forward copy, of \<open>k\<close> units of \<open>u\<close> bytes: one typed
  store, or one typed load and one typed store, of \<open>u\<close> bytes for each unit, in ascending
  order.
\<close>

definition unit_stores :: "nat \<Rightarrow> addr \<Rightarrow> nat \<Rightarrow> trace" where
  "unit_stores u to k = map (\<lambda>i. Store (to + of_nat (i * u)) u) [0..<k]"

definition unit_copies :: "nat \<Rightarrow> addr \<Rightarrow> addr \<Rightarrow> nat \<Rightarrow> trace" where
  "unit_copies u from to k =
     concat (map (\<lambda>i. [Load (from + of_nat (i * u)) u, Store (to + of_nat (i * u)) u]) [0..<k])"

text \<open>
  The offset in the source of the byte that ends at offset \<open>j\<close> of the destination: the
  same offset, or its mirror image within its element when the elements are swapped.
\<close>

definition elem_index :: "nat \<Rightarrow> bool \<Rightarrow> nat \<Rightarrow> nat" where
  "elem_index w swap j = (if swap then (j div w) * w + (w - 1 - j mod w) else j)"

text \<open>The memory after all elements have been moved, each read from the original memory.\<close>

definition moved :: "nat \<Rightarrow> bool \<Rightarrow> addr \<Rightarrow> addr \<Rightarrow> addr \<Rightarrow> mem \<Rightarrow> mem" where
  "moved w swap src dst byte_count m =
     (\<lambda>x. if unat (x - dst) < unat byte_count
          then m (src + of_nat (elem_index w swap (unat (x - dst)))) else m x)"

text \<open>The \<open>n\<close> bytes at \<open>p\<close>, in address order.\<close>

definition bytes_at :: "addr \<Rightarrow> nat \<Rightarrow> mem \<Rightarrow> byte list" where
  "bytes_at p n m = map (\<lambda>i. m (p + of_nat i)) [0..<n]"

text \<open>A memory for examples: every byte is 0.\<close>

definition zeroed :: mem where
  "zeroed = (\<lambda>x. 0)"

text \<open>
  The reference of the spec for the conjoint copy: "first fully copies source into a
  separate temporary buffer, then copies that temporary into \<^verbatim>\<open>dst\<close>".
\<close>

definition reference_copy :: "addr \<Rightarrow> addr \<Rightarrow> addr \<Rightarrow> mem \<Rightarrow> mem" where
  "reference_copy src dst n m =
     (let temporary = memcpy_from src (unat n) m
      in memcpy_to dst temporary m)"

text \<open>
  The classifier as section 4.1 of the spec words it: "compute their bitwise OR and return
  the largest power-of-two in {8,4,2,1} that evenly divides it".
\<close>

definition classify :: "addr list \<Rightarrow> nat" where
  "classify operands =
     Max {u \<in> {8, 4, 2, 1}. u dvd unat (foldr (OR) operands 0)}"


section \<open>Proofs\<close>

subsection \<open>Object representations and values\<close>

lemma bit_word_rcat_bytes:
  "bit (word_rcat (ws :: byte list) :: 'a::len word) n \<longleftrightarrow>
     n < LENGTH('a) \<and> n div 8 < length ws \<and> bit (rev ws ! (n div 8)) (n mod 8)"
proof -
  have "bit (horner_sum uint (2 ^ LENGTH(8)) (rev ws)) n \<longleftrightarrow>
          n div LENGTH(8) < length (rev ws) \<and> bit (rev ws ! (n div LENGTH(8))) (n mod LENGTH(8))"
    by (rule bit_horner_sum_uint_exp_iff)
  then show ?thesis
    by (simp add: word_rcat_def bit_word_of_int_iff)
qed

lemma length_object_bytes: "length (object_bytes bo (v :: 'a::len word)) = sizeof TYPE('a)"
  by (cases bo) (simp_all add: object_bytes_def)

lemma le_byte_rcat:
  assumes "8 * length bs = LENGTH('a::len)" and i: "i < length bs"
  shows "(ucast (drop_bit (8 * i) (word_rcat (rev bs) :: 'a word)) :: byte) = bs ! i"
proof (rule bit_word_eqI)
  fix n
  assume "n < LENGTH(8)"
  then have n: "n < 8" by simp
  from i n assms have "8 * i + n < LENGTH('a)" by linarith
  moreover from n have "(8 * i + n) div 8 = i" "(8 * i + n) mod 8 = n" by simp_all
  ultimately show "bit (ucast (drop_bit (8 * i) (word_rcat (rev bs) :: 'a word)) :: byte) n = bit (bs ! i) n"
    using i n by (simp add: bit_ucast_iff bit_drop_bit_eq bit_word_rcat_bytes)
qed

lemma le_bytes_rcat:
  assumes "8 * length bs = LENGTH('a::len)"
  shows "map (\<lambda>i. ucast (drop_bit (8 * i) (word_rcat (rev bs) :: 'a word))) [0..<length bs] = (bs :: byte list)"
  by (rule nth_equalityI) (simp_all add: le_byte_rcat [OF assms])

lemma object_bytes_value:
  assumes "8 * length bs = LENGTH('a::len)"
  shows "object_bytes bo (object_value bo bs :: 'a word) = bs"
proof -
  from assms have s: "sizeof TYPE('a) = length bs"
    by (simp add: sizeof_def flip: assms)
  show ?thesis
  proof (cases bo)
    case LittleEndian
    then show ?thesis
      using le_bytes_rcat [OF assms] by (simp add: object_bytes_def object_value_def s)
  next
    case BigEndian
    have "8 * length (rev bs) = LENGTH('a)" using assms by simp
    from le_bytes_rcat [OF this] have "map (\<lambda>i. ucast (drop_bit (8 * i) (word_rcat bs :: 'a word))) [0..<length bs] = rev bs"
      by simp
    with BigEndian show ?thesis
      by (simp add: object_bytes_def object_value_def s)
  qed
qed

lemma object_bytes_byteswap:
  assumes "8 dvd LENGTH('a::len)"
  shows "object_bytes bo (byteswap (v :: 'a word)) = rev (object_bytes bo v)"
proof -
  let ?le = "map (\<lambda>i. ucast (drop_bit (8 * i) v) :: byte) [0..<sizeof TYPE('a)]"
  have len: "8 * length (rev ?le) = LENGTH('a)"
    using assms by (simp add: sizeof_def)
  have "map (\<lambda>i. ucast (drop_bit (8 * i) (word_rcat (rev (rev ?le)) :: 'a word)) :: byte) [0..<length (rev ?le)] = rev ?le"
    by (rule le_bytes_rcat [OF len])
  then have "map (\<lambda>i. ucast (drop_bit (8 * i) (byteswap v)) :: byte) [0..<sizeof TYPE('a)] = rev ?le"
    by (simp add: byteswap_def)
  then show ?thesis
    by (cases bo) (simp_all add: object_bytes_def)
qed

subsection \<open>Byte-wise copies and address arithmetic\<close>

declare do_conjoint_swap_for.simps [simp del]

lemma memcpy_from_eq: "memcpy_from p n m = map (\<lambda>i. m (p + of_nat i)) [0..<n]"
proof (induction n arbitrary: p)
  case 0
  show ?case by simp
next
  case (Suc n)
  have "[0..<Suc n] = 0 # map Suc [0..<n]"
    by (simp add: upt_conv_Cons map_Suc_upt del: upt_Suc)
  then have "map (\<lambda>i. m (p + of_nat i)) [0..<Suc n] = m p # map (\<lambda>i. m (p + 1 + of_nat i)) [0..<n]"
    by (simp add: comp_def add.assoc del: upt_Suc)
  with Suc show ?case by simp
qed

lemma unat_m1: "unat (- 1 :: addr) = 2 ^ 64 - 1"
  by (simp add: unsigned_minus_1_eq_mask mask_eq_exp_minus_1)

lemma memcpy_to_eq:
  "length bs \<le> 2 ^ 64 \<Longrightarrow>
   memcpy_to p bs m = (\<lambda>x. if unat (x - p) < length bs then bs ! unat (x - p) else m x)"
proof (induction bs arbitrary: p m)
  case Nil
  show ?case by simp
next
  case (Cons b bs)
  then have len: "length bs < 2 ^ 64" by simp
  have "memcpy_to (p + 1) bs (m(p := b)) x =
        (if unat (x - p) < Suc (length bs) then (b # bs) ! unat (x - p) else m x)" for x
  proof (cases "x = p")
    case True
    have "unat (p - (p + 1)) = 2 ^ 64 - 1"
      by (simp add: unat_m1)
    with len True show ?thesis
      by (simp add: Cons.IH)
  next
    case False
    then have nz: "x - p \<noteq> 0" by simp
    have "x - (p + 1) = (x - p) - 1" by simp
    then have "unat (x - (p + 1)) = unat (x - p) - 1"
      using unat_minus_one [OF nz] by (simp add: diff_diff_eq)
    moreover from nz have "0 < unat (x - p)"
      by (simp add: unat_gt_0)
    ultimately show ?thesis
      using len False by (auto simp: Cons.IH nth_Cons')
  qed
  then show ?case by auto
qed

lemma store_eq_memcpy_to:
  "sizeof TYPE('a) \<le> 2 ^ 64 \<Longrightarrow>
   store bo p (v :: 'a::len word) m = memcpy_to p (object_bytes bo v) m"
  by (simp add: memcpy_to_eq length_object_bytes store_def)

lemma unat_sub_of_nat:
  "c \<le> 2 ^ 64 \<Longrightarrow>
   unat ((a :: addr) - of_nat c) = (if c \<le> unat a then unat a - c else unat a + 2 ^ 64 - c)"
proof (cases "c = 2 ^ 64")
  case True
  have lt: "unat a < c" using unsigned_less [of a] True by simp
  have "(of_nat c :: addr) = 0"
    unfolding True by (simp add: word_of_nat_eq_0_iff)
  then have "unat (a - of_nat c) = unat a"
    by (simp only: diff_zero)
  with lt True show ?thesis by simp
next
  case False
  assume "c \<le> 2 ^ 64"
  with False have "c < 2 ^ 64" by simp
  then have "unat (of_nat c :: addr) = c"
    by (simp add: unat_of_nat)
  then show ?thesis
    by (simp add: unat_sub_if_size word_size)
qed

lemma unat_add_of_nat: "unat ((a :: addr) + of_nat c) = (unat a + c) mod 2 ^ 64"
  by (simp add: unat_word_ariths unat_of_nat mod_add_right_eq)

subsection \<open>The loop of the element copy at byte level\<close>

lemma load_eq_memcpy_from:
  "(load bo p m :: 'a::len word) = object_value bo (memcpy_from p (sizeof TYPE('a)) m)"
  by (simp add: load_def memcpy_from_eq)

lemma elem_transfer:
  fixes T :: "'a::len itself"
  assumes 8: "8 dvd LENGTH('a)" and sz: "sizeof T \<le> 2 ^ 64"
  shows "memcpy_to d (object_bytes bo
           (if swap then byteswap (object_value bo (memcpy_from s (sizeof T) m) :: 'a word)
            else object_value bo (memcpy_from s (sizeof T) m))) m
         = copy_elem (sizeof T) swap s d m"
proof -
  let ?w = "sizeof T"
  let ?bs = "memcpy_from s ?w m"
  have w: "?w = sizeof TYPE('a)" by (simp add: sizeof_def)
  have len: "length ?bs = ?w" by (simp add: memcpy_from_eq)
  with 8 have len8: "8 * length ?bs = LENGTH('a)" by (simp add: sizeof_def)
  have ob: "object_bytes bo (object_value bo ?bs :: 'a word) = ?bs"
    by (rule object_bytes_value [OF len8])
  have obs: "object_bytes bo (byteswap (object_value bo ?bs :: 'a word)) = rev ?bs"
    by (simp add: object_bytes_byteswap [OF 8] ob)
  have nth: "?bs ! j = m (s + of_nat j)" if "j < ?w" for j
    using that by (simp add: memcpy_from_eq)
  have rnth: "rev ?bs ! j = m (s + of_nat (?w - 1 - j))" if "j < ?w" for j
    using that len by (simp add: rev_nth nth)
  show ?thesis
  proof (cases swap)
    case True
    then show ?thesis
      using sz len by (auto simp: obs memcpy_to_eq copy_elem_def rnth)
  next
    case False
    then show ?thesis
      using sz len by (auto simp: ob memcpy_to_eq copy_elem_def nth)
  qed
qed

lemma do_conjoint_swap_for_eq:
  fixes T :: "'a::len itself"
  assumes 8: "8 dvd LENGTH('a)" and sz: "sizeof T \<le> 2 ^ 64"
  shows "do_conjoint_swap_for T D swap sa da bo cur_src cur_dst i count tr m =
         (tr @ elem_accesses D (sizeof T) sa da (unat count - unat i) cur_src cur_dst,
          copy_elems D (sizeof T) swap (unat count - unat i) cur_src cur_dst m)"
proof (induction T D swap sa da bo cur_src cur_dst i count tr m
    rule: do_conjoint_swap_for.induct)
  case (1 T D swap sa da bo cur_src cur_dst i count tr m)
  have sz': "sizeof TYPE('a) \<le> 2 ^ 64" using sz by (simp add: sizeof_def)
  show ?case
  proof (cases "i < count")
    case False
    then have "unat count - unat i = 0" by unat_arith
    with False show ?thesis
      by (subst do_conjoint_swap_for.simps) simp
  next
    case True
    then have "unat i < unat count" "unat (i + 1) = unat i + 1"
      by unat_arith+
    then have k: "unat count - unat i = Suc (unat count - unat (i + 1))"
      by simp
    show ?thesis
      apply (subst do_conjoint_swap_for.simps)
      apply (subst k)
      apply (subst k)
      using True elem_transfer [OF 8 sz, of cur_dst bo True cur_src m]
        elem_transfer [OF 8 sz, of cur_dst bo False cur_src m]
        "1.IH" [OF True refl refl refl refl refl refl refl]
      apply (simp add: Let_def load_eq_memcpy_from store_eq_memcpy_to [OF sz'])
      apply (simp add: sizeof_def)
      done
  qed
qed

subsection \<open>Traversal in ascending order\<close>

lemma elem_index_less:
  assumes "0 < w" "j < k * w"
  shows "elem_index w swap j < k * w"
proof (cases swap)
  case False
  with assms show ?thesis by (simp add: elem_index_def)
next
  case True
  from assms have "j div w < k"
    by (simp add: less_mult_imp_div_less)
  then have "Suc (j div w) * w \<le> k * w"
    by (meson Suc_leI mult_le_mono1)
  moreover have "(j div w) * w + (w - 1 - j mod w) < Suc (j div w) * w"
    using assms(1) by simp
  ultimately show ?thesis
    using True by (simp add: elem_index_def)
qed

lemma elem_index_first:
  "j < w \<Longrightarrow> elem_index w swap j = (if swap then w - 1 - j else j)"
  by (simp add: elem_index_def)

lemma elem_index_shift:
  assumes "0 < w" "w \<le> j"
  shows "elem_index w swap j = w + elem_index w swap (j - w)"
proof -
  from assms have "j div w = Suc ((j - w) div w)" "j mod w = (j - w) mod w"
    by (simp_all add: le_div_geq le_mod_geq)
  with assms(2) show ?thesis
    by (simp add: elem_index_def)
qed

lemma elem_index_last:
  assumes "k * w \<le> j" "j < Suc k * w"
  shows "elem_index w swap j = k * w + (if swap then w - 1 - (j - k * w) else j - k * w)"
proof -
  from assms have "0 < w" by (cases w) auto
  from assms have d: "j div w = k"
    by (metis \<open>0 < w\<close> div_nat_eqI mult.commute)
  have "j mod w = j - k * w"
    using d by (metis minus_div_mult_eq_mod)
  with d assms show ?thesis
    by (simp add: elem_index_def)
qed

lemma copy_elems_RIGHT:
  assumes "0 < w" "unat (s - d) + k * w \<le> 2 ^ 64"
  shows "copy_elems RIGHT w swap k s d m =
         (\<lambda>x. if unat (x - d) < k * w
              then m (s + of_nat (elem_index w swap (unat (x - d)))) else m x)"
  using assms(2)
proof (induction k arbitrary: s d m)
  case 0
  show ?case by simp
next
  case (Suc k)
  let ?m1 = "copy_elem w swap s d m"
  have bound: "unat (s - d) + w + k * w \<le> 2 ^ 64"
    using Suc.prems by (simp add: ac_simps)
  then have w64: "w \<le> 2 ^ 64" by linarith
  have "s + of_nat w - (d + of_nat w) = s - d" by simp
  with bound have "unat (s + of_nat w - (d + of_nat w)) + k * w \<le> 2 ^ 64"
    by simp
  from Suc.IH [OF this]
  have IH: "copy_elems RIGHT w swap k (s + of_nat w) (d + of_nat w) ?m1 =
      (\<lambda>x. if unat (x - (d + of_nat w)) < k * w
           then ?m1 (s + of_nat w + of_nat (elem_index w swap (unat (x - (d + of_nat w)))))
           else ?m1 x)" .
  have "(if unat (x - (d + of_nat w)) < k * w
         then ?m1 (s + of_nat w + of_nat (elem_index w swap (unat (x - (d + of_nat w)))))
         else ?m1 x) =
        (if unat (x - d) < Suc k * w
         then m (s + of_nat (elem_index w swap (unat (x - d)))) else m x)" for x
  proof -
    define j where "j = unat (x - d)"
    have "unat (x - (d + of_nat w)) = unat ((x - d) - of_nat w)"
      by (simp add: diff_diff_eq)
    also have "\<dots> = (if w \<le> j then j - w else j + 2 ^ 64 - w)"
      unfolding j_def by (rule unat_sub_of_nat [OF w64])
    finally have j': "unat (x - (d + of_nat w)) = (if w \<le> j then j - w else j + 2 ^ 64 - w)" .
    show ?thesis
    proof (cases "w \<le> j")
      case False
      then have "j < w" by simp
      moreover from this bound have "\<not> j + 2 ^ 64 - w < k * w" by linarith
      ultimately show ?thesis
        using j' by (simp add: copy_elem_def elem_index_first flip: j_def)
    next
      case True
      show ?thesis
      proof (cases "j - w < k * w")
        case False
        with True have "\<not> j < Suc k * w" by simp
        with True False show ?thesis
          using j' by (simp add: copy_elem_def flip: j_def)
      next
        case inner: True
        let ?u = "elem_index w swap (j - w)"
        have u: "?u < k * w"
          by (rule elem_index_less [OF assms(1) inner])
        have "s + of_nat w + of_nat ?u - d = (s - d) + of_nat (w + ?u)" by simp
        then have "unat (s + of_nat w + of_nat ?u - d) = (unat (s - d) + (w + ?u)) mod 2 ^ 64"
          by (simp only: unat_add_of_nat)
        moreover have "unat (s - d) + (w + ?u) < 2 ^ 64"
          using u bound by linarith
        ultimately have "unat (s + of_nat w + of_nat ?u - d) = unat (s - d) + (w + ?u)"
          by simp
        then have "\<not> unat (s + of_nat w + of_nat ?u - d) < w" by simp
        then have A: "?m1 (s + of_nat w + of_nat ?u) = m (s + of_nat w + of_nat ?u)"
          by (simp add: copy_elem_def)
        have B: "s + of_nat w + of_nat ?u = s + of_nat (elem_index w swap j)"
          by (simp add: elem_index_shift [OF assms(1) True])
        from A B have C: "?m1 (s + of_nat w + of_nat ?u) = m (s + of_nat (elem_index w swap j))"
          by (simp only:)
        from True inner have lt: "j < Suc k * w" by simp
        from j' True have lhs: "unat (x - (d + of_nat w)) = j - w" by simp
        show ?thesis
          by (simp only: lhs inner lt C if_True flip: j_def)
      qed
    qed
  qed
  with IH show ?case by simp
qed

subsection \<open>Traversal in descending order\<close>

lemma copy_elems_LEFT:
  assumes "0 < w" "unat (d - s) + k * w \<le> 2 ^ 64"
  shows "copy_elems LEFT w swap k (s + of_nat (k * w) - of_nat w)
           (d + of_nat (k * w) - of_nat w) m =
         (\<lambda>x. if unat (x - d) < k * w
              then m (s + of_nat (elem_index w swap (unat (x - d)))) else m x)"
  using assms(2)
proof (induction k arbitrary: m)
  case 0
  show ?case by simp
next
  case (Suc k)
  let ?sk = "s + of_nat (k * w)" and ?dk = "d + of_nat (k * w)"
  let ?m1 = "copy_elem w swap ?sk ?dk m"
  have bound: "unat (d - s) + k * w + w \<le> 2 ^ 64"
    using Suc.prems by (simp add: ac_simps)
  then have kw64: "k * w \<le> 2 ^ 64" and k: "unat (d - s) + k * w \<le> 2 ^ 64"
    by linarith+
  have start: "s + of_nat (Suc k * w) - of_nat w = ?sk" "d + of_nat (Suc k * w) - of_nat w = ?dk"
    by simp_all
  have IH: "copy_elems LEFT w swap k (?sk - of_nat w) (?dk - of_nat w) ?m1 =
      (\<lambda>x. if unat (x - d) < k * w
           then ?m1 (s + of_nat (elem_index w swap (unat (x - d)))) else ?m1 x)"
    by (rule Suc.IH [OF k])
  have "(if unat (x - d) < k * w
         then ?m1 (s + of_nat (elem_index w swap (unat (x - d)))) else ?m1 x) =
        (if unat (x - d) < Suc k * w
         then m (s + of_nat (elem_index w swap (unat (x - d)))) else m x)" for x
  proof -
    define j where "j = unat (x - d)"
    show ?thesis
    proof (cases "j < k * w")
      case True
      let ?u = "elem_index w swap j"
      have u: "?u < k * w"
        by (rule elem_index_less [OF assms(1) True])
      define e where "e = unat (d - s) + (k * w - ?u)"
      from u bound have e: "0 < e" "e + w \<le> 2 ^ 64"
        by (simp_all add: e_def)
      from u have "(of_nat (k * w - ?u) :: addr) = of_nat (k * w) - of_nat ?u"
        by (simp add: of_nat_diff)
      then have "(of_nat e :: addr) = (d - s) + of_nat (k * w) - of_nat ?u"
        by (simp add: e_def)
      then have "s + of_nat ?u - ?dk = 0 - of_nat e"
        by simp
      moreover from e have "unat ((0 :: addr) - of_nat e) = 2 ^ 64 - e"
        using unat_sub_of_nat [of e 0] by simp
      ultimately have "\<not> unat (s + of_nat ?u - ?dk) < w"
        using e by simp
      then have "?m1 (s + of_nat ?u) = m (s + of_nat ?u)"
        by (simp add: copy_elem_def)
      moreover from True have "j < Suc k * w" by simp
      ultimately show ?thesis
        using True by (simp flip: j_def)
    next
      case False
      then have le: "k * w \<le> j" by simp
      have "unat (x - ?dk) = unat ((x - d) - of_nat (k * w))"
        by (simp add: diff_diff_eq)
      also have "\<dots> = j - k * w"
        using unat_sub_of_nat [OF kw64, of "x - d"] le by (simp add: j_def)
      finally have off: "unat (x - ?dk) = j - k * w" .
      show ?thesis
      proof (cases "j < Suc k * w")
        case True
        with le have "j - k * w < w" by simp
        then have "?m1 x = m (?sk + of_nat (if swap then w - 1 - (j - k * w) else j - k * w))"
          by (simp add: copy_elem_def off del: of_nat_mult)
        also have "?sk + of_nat (if swap then w - 1 - (j - k * w) else j - k * w) =
                   s + of_nat (elem_index w swap j)"
          by (simp add: elem_index_last [OF le True] del: of_nat_mult)
        finally show ?thesis
          using False True by (simp flip: j_def del: of_nat_mult)
      next
        case False
        with le have "\<not> j - k * w < w" by simp
        then have "?m1 x = m x"
          by (simp add: copy_elem_def off del: of_nat_mult)
        with False \<open>\<not> j < k * w\<close> show ?thesis
          by (simp flip: j_def)
      qed
    qed
  qed
  with IH show ?case
    by (simp only: copy_elems.simps CopyDirection.case start)
qed

subsection \<open>The typed dispatch and the direction test\<close>

lemma do_conjoint_swap_elems_eq:
  fixes T :: "'a::len itself"
  assumes 8: "8 dvd LENGTH('a)" and sz: "sizeof T < 2 ^ 64"
  shows "do_conjoint_swap_elems T D swap sa da bo src dst byte_count m =
         (elem_accesses D (sizeof T) sa da (unat byte_count div sizeof T)
            (case D of RIGHT \<Rightarrow> src | LEFT \<Rightarrow> src + byte_count - of_nat (sizeof T))
            (case D of RIGHT \<Rightarrow> dst | LEFT \<Rightarrow> dst + byte_count - of_nat (sizeof T)),
          copy_elems D (sizeof T) swap (unat byte_count div sizeof T)
            (case D of RIGHT \<Rightarrow> src | LEFT \<Rightarrow> src + byte_count - of_nat (sizeof T))
            (case D of RIGHT \<Rightarrow> dst | LEFT \<Rightarrow> dst + byte_count - of_nat (sizeof T)) m)"
proof -
  from sz have "unat (of_nat (sizeof T) :: addr) = sizeof T"
    by (simp add: unat_of_nat)
  then have "unat (byte_count div of_nat (sizeof T)) = unat byte_count div sizeof T"
    by (simp add: unat_div)
  moreover from sz have "sizeof T \<le> 2 ^ 64" by simp
  ultimately show ?thesis
    by (simp add: do_conjoint_swap_elems_def do_conjoint_swap_for_eq [OF 8] Let_def)
qed

lemma do_conjoint_swap_T_eq:
  fixes T :: "'a::len itself"
  assumes 8: "8 dvd LENGTH('a)" and sz: "sizeof T < 2 ^ 64"
  shows "do_conjoint_swap_T T D swap bo src dst byte_count m =
         (elem_accesses D (sizeof T) (is_aligned src (of_nat (sizeof T)))
            (is_aligned dst (of_nat (sizeof T))) (unat byte_count div sizeof T)
            (case D of RIGHT \<Rightarrow> src | LEFT \<Rightarrow> src + byte_count - of_nat (sizeof T))
            (case D of RIGHT \<Rightarrow> dst | LEFT \<Rightarrow> dst + byte_count - of_nat (sizeof T)),
          copy_elems D (sizeof T) swap (unat byte_count div sizeof T)
            (case D of RIGHT \<Rightarrow> src | LEFT \<Rightarrow> src + byte_count - of_nat (sizeof T))
            (case D of RIGHT \<Rightarrow> dst | LEFT \<Rightarrow> dst + byte_count - of_nat (sizeof T)) m)"
  by (simp add: do_conjoint_swap_T_def do_conjoint_swap_elems_eq [OF 8 sz])

lemma do_conjoint_swap_T_RIGHT:
  fixes T :: "'a::len itself"
  assumes 8: "8 dvd LENGTH('a)" and sz: "sizeof T < 2 ^ 64" and pos: "0 < sizeof T"
    and mult: "unat byte_count mod sizeof T = 0"
    and dist: "unat (src - dst) + unat byte_count \<le> 2 ^ 64"
  shows "snd (do_conjoint_swap_T T RIGHT swap bo src dst byte_count m) =
         moved (sizeof T) swap src dst byte_count m"
proof -
  from mult have n: "unat byte_count div sizeof T * sizeof T = unat byte_count"
    by (simp add: mod_0_imp_dvd)
  with dist have "unat (src - dst) + unat byte_count div sizeof T * sizeof T \<le> 2 ^ 64"
    by simp
  from copy_elems_RIGHT [OF pos this] n show ?thesis
    by (simp add: do_conjoint_swap_T_eq [OF 8 sz] moved_def)
qed

lemma do_conjoint_swap_T_LEFT:
  fixes T :: "'a::len itself"
  assumes 8: "8 dvd LENGTH('a)" and sz: "sizeof T < 2 ^ 64" and pos: "0 < sizeof T"
    and mult: "unat byte_count mod sizeof T = 0"
    and dist: "unat (dst - src) + unat byte_count \<le> 2 ^ 64"
  shows "snd (do_conjoint_swap_T T LEFT swap bo src dst byte_count m) =
         moved (sizeof T) swap src dst byte_count m"
proof -
  let ?k = "unat byte_count div sizeof T"
  from mult have n: "?k * sizeof T = unat byte_count"
    by (simp add: mod_0_imp_dvd)
  with dist have "unat (dst - src) + ?k * sizeof T \<le> 2 ^ 64"
    by simp
  from copy_elems_LEFT [OF pos this, of swap m] n show ?thesis
    by (simp add: do_conjoint_swap_T_eq [OF 8 sz] moved_def del: of_nat_mult)
qed

lemma direction_test:
  assumes "valid_range src n" and "valid_range dst n"
  shows "dst \<le> src \<or> dst \<ge> src + n \<longleftrightarrow>
         unat dst \<le> unat src \<or> unat src + unat n \<le> unat dst"
proof (cases "unat src + unat n < 2 ^ 64")
  case True
  then have "unat (src + n) = unat src + unat n"
    by (simp add: unat_add_lem [THEN iffD1])
  then show ?thesis
    by (simp add: word_le_nat_alt)
next
  case False
  with assms have top: "unat src + unat n = 2 ^ 64" "unat dst \<le> unat src"
    by (simp_all add: valid_range_def)
  have "src + n = of_nat (unat src + unat n)"
    by (rule word_arith_nat_add)
  also have "\<dots> = 0"
    unfolding top(1) by (simp add: word_of_nat_eq_0_iff)
  finally show ?thesis
    using top(2) by (simp add: word_le_nat_alt)
qed

lemma direction_distance:
  assumes "valid_range src byte_count" "valid_range dst byte_count"
  shows "dst \<le> src \<or> dst \<ge> src + byte_count \<Longrightarrow> unat (src - dst) + unat byte_count \<le> 2 ^ 64"
    and "\<not> (dst \<le> src \<or> dst \<ge> src + byte_count) \<Longrightarrow> unat (dst - src) + unat byte_count \<le> 2 ^ 64"
proof -
  from assms have v: "unat src + unat byte_count \<le> 2 ^ 64" "unat dst + unat byte_count \<le> 2 ^ 64"
    by (simp_all add: valid_range_def)
  have sd: "unat (src - dst) = (if unat dst \<le> unat src then unat src - unat dst
                               else unat src + 2 ^ 64 - unat dst)"
    by (simp add: unat_sub_if_size word_size)
  have ds: "unat (dst - src) = (if unat src \<le> unat dst then unat dst - unat src
                               else unat dst + 2 ^ 64 - unat src)"
    by (simp add: unat_sub_if_size word_size)
  show "dst \<le> src \<or> dst \<ge> src + byte_count \<Longrightarrow> unat (src - dst) + unat byte_count \<le> 2 ^ 64"
    using v by (auto simp: direction_test [OF assms] sd)
  show "\<not> (dst \<le> src \<or> dst \<ge> src + byte_count) \<Longrightarrow> unat (dst - src) + unat byte_count \<le> 2 ^ 64"
    using v by (auto simp: direction_test [OF assms] ds)
qed

lemma is_aligned_unat: "is_aligned x a \<longleftrightarrow> unat x mod unat a = 0"
  by (simp add: is_aligned_def word_eq_iff_unsigned [where ?'a = nat] unat_mod)

lemma do_conjoint_swap_moved:
  assumes es: "elem_size = 2 \<or> elem_size = 4 \<or> elem_size = 8"
    and mult: "unat byte_count mod unat elem_size = 0"
    and dist: "case D of RIGHT \<Rightarrow> unat (src - dst) + unat byte_count \<le> 2 ^ 64
                       | LEFT \<Rightarrow> unat (dst - src) + unat byte_count \<le> 2 ^ 64"
  shows "\<exists>tr. do_conjoint_swap D swap bo src dst byte_count elem_size m =
           Inr (tr, moved (unat elem_size) swap src dst byte_count m)"
proof -
  have T: "\<exists>tr. do_conjoint_swap_T T D swap bo src dst byte_count m =
             (tr, moved (sizeof T) swap src dst byte_count m)"
    if "8 dvd LENGTH('a)" "sizeof T < 2 ^ 64" "0 < sizeof T" "unat byte_count mod sizeof T = 0"
    for T :: "'a::len itself"
  proof -
    have "snd (do_conjoint_swap_T T D swap bo src dst byte_count m) =
          moved (sizeof T) swap src dst byte_count m"
      using dist do_conjoint_swap_T_RIGHT [OF that] do_conjoint_swap_T_LEFT [OF that]
      by (cases D) simp_all
    then show ?thesis
      by (cases "do_conjoint_swap_T T D swap bo src dst byte_count m") simp
  qed
  from es show ?thesis
  proof (elim disjE)
    assume e: "elem_size = 2"
    with mult T [of "TYPE(16)"] show ?thesis
      by (simp add: do_conjoint_swap_def sizeof_def)
  next
    assume e: "elem_size = 4"
    with mult T [of "TYPE(32)"] show ?thesis
      by (simp add: do_conjoint_swap_def sizeof_def)
  next
    assume e: "elem_size = 8"
    with mult T [of "TYPE(64)"] show ?thesis
      by (simp add: do_conjoint_swap_def sizeof_def)
  qed
qed

lemma conjoint_swap_if_needed_moved:
  assumes "preconditions src dst byte_count elem_size"
    and "valid_range src byte_count" "valid_range dst byte_count"
  shows "\<exists>tr. conjoint_swap_if_needed swap bo src dst byte_count elem_size m =
           Inr (tr, moved (unat elem_size) swap src dst byte_count m)"
proof -
  from assms(1) have p: "src \<noteq> 0" "dst \<noteq> 0" "elem_size = 2 \<or> elem_size = 4 \<or> elem_size = 8"
    "unat byte_count mod unat elem_size = 0"
    by (simp_all add: preconditions_def)
  note d = direction_distance [OF assms(2,3)]
  show ?thesis
  proof (cases "dst \<le> src \<or> dst \<ge> src + byte_count")
    case True
    from d(1) [OF True] have "case RIGHT of RIGHT \<Rightarrow> unat (src - dst) + unat byte_count \<le> 2 ^ 64
                       | LEFT \<Rightarrow> unat (dst - src) + unat byte_count \<le> 2 ^ 64"
      by simp
    from do_conjoint_swap_moved [OF p(3,4) this] True p show ?thesis
      by (simp add: conjoint_swap_if_needed_def is_aligned_unat)
  next
    case False
    from d(2) [OF False] have "case LEFT of RIGHT \<Rightarrow> unat (src - dst) + unat byte_count \<le> 2 ^ 64
                       | LEFT \<Rightarrow> unat (dst - src) + unat byte_count \<le> 2 ^ 64"
      by simp
    from do_conjoint_swap_moved [OF p(3,4) this] False p show ?thesis
      by (simp add: conjoint_swap_if_needed_def is_aligned_unat)
  qed
qed

lemma conjoint_copy_moved:
  assumes "preconditions src dst byte_count elem_size"
    and "valid_range src byte_count" "valid_range dst byte_count"
  shows "conjoint_copy bo src dst byte_count elem_size m =
         Inr (moved (unat elem_size) False src dst byte_count m)"
  using conjoint_swap_if_needed_moved [OF assms, of False bo m]
  by (auto simp: conjoint_copy_def)

lemma conjoint_swap_moved:
  assumes "preconditions src dst byte_count elem_size"
    and "valid_range src byte_count" "valid_range dst byte_count"
  shows "conjoint_swap bo src dst byte_count elem_size m =
         Inr (moved (unat elem_size) True src dst byte_count m)"
  using conjoint_swap_if_needed_moved [OF assms, of True bo m]
  by (auto simp: conjoint_swap_def)

subsection \<open>Fill patterns\<close>

lemma fill_jlong_mult: "fill_jlong v = ucast v * 0x0101010101010101"
  by (simp add: fill_jlong_def Let_def push_bit_eq_mult algebra_simps)

lemma rcat8: "(word_rcat [v, v, v, v, v, v, v, v :: byte] :: 64 word) = ucast v * 0x0101010101010101"
proof -
  have "horner_sum uint (2 ^ LENGTH(8)) (rev [v, v, v, v, v, v, v, v]) = uint v * 0x0101010101010101"
    by simp
  then have "(word_rcat [v, v, v, v, v, v, v, v] :: 64 word) = word_of_int (uint v * 0x0101010101010101)"
    by (simp only: word_rcat_def comp_def)
  then show ?thesis
    by (simp only: ucast_eq of_int_mult of_int_numeral)
qed

lemma fill_jint_mult: "fill_jint v = ucast v * 0x01010101"
  by (simp add: fill_jint_def Let_def push_bit_eq_mult algebra_simps)

lemma rcat4: "(word_rcat [v, v, v, v :: byte] :: 32 word) = ucast v * 0x01010101"
proof -
  have "horner_sum uint (2 ^ LENGTH(8)) (rev [v, v, v, v]) = uint v * 0x01010101"
    by simp
  then have "(word_rcat [v, v, v, v] :: 32 word) = word_of_int (uint v * 0x01010101)"
    by (simp only: word_rcat_def comp_def)
  then show ?thesis
    by (simp only: ucast_eq of_int_mult of_int_numeral)
qed

lemma fill_jshort_mult: "fill_jshort v = ucast v * 0x0101"
  by (simp add: fill_jshort_def Let_def push_bit_eq_mult algebra_simps)

lemma rcat2: "(word_rcat [v, v :: byte] :: 16 word) = ucast v * 0x0101"
proof -
  have "horner_sum uint (2 ^ LENGTH(8)) (rev [v, v]) = uint v * 0x0101"
    by simp
  then have "(word_rcat [v, v] :: 16 word) = word_of_int (uint v * 0x0101)"
    by (simp only: word_rcat_def comp_def)
  then show ?thesis
    by (simp only: ucast_eq of_int_mult of_int_numeral)
qed

lemma le_bytes_replicate:
  assumes "8 * n = LENGTH('a::len)"
  shows "object_bytes bo (word_rcat (replicate n (v :: byte)) :: 'a word) = replicate n v"
proof -
  have "8 * length (replicate n v) = LENGTH('a)" using assms by simp
  from le_bytes_rcat [OF this]
  have "map (\<lambda>i. ucast (drop_bit (8 * i) (word_rcat (replicate n v) :: 'a word))) [0..<n] =
        replicate n v"
    by simp
  moreover have "sizeof TYPE('a) = n"
    by (simp add: sizeof_def flip: assms)
  ultimately show ?thesis
    by (cases bo) (simp_all add: object_bytes_def)
qed

lemma replicate_numerals:
  "replicate 8 v = [v, v, v, v, v, v, v, v]"
  "replicate 4 v = [v, v, v, v]"
  "replicate 2 v = [v, v]"
  by (simp_all add: eval_nat_numeral)

lemma object_bytes_byte: "object_bytes bo (v :: byte) = replicate 1 v"
  by (cases bo) (simp_all add: object_bytes_def sizeof_def)

lemma object_bytes_fill_jlong: "object_bytes bo (fill_jlong v) = replicate 8 v"
proof -
  have "fill_jlong v = word_rcat (replicate 8 v)"
    by (simp only: fill_jlong_mult rcat8 replicate_numerals)
  then show ?thesis
    by (simp only: le_bytes_replicate [of 8 bo v, where ?'a = 64, simplified])
qed

lemma object_bytes_fill_jint: "object_bytes bo (fill_jint v) = replicate 4 v"
proof -
  have "fill_jint v = word_rcat (replicate 4 v)"
    by (simp only: fill_jint_mult rcat4 replicate_numerals)
  then show ?thesis
    by (simp only: le_bytes_replicate [of 4 bo v, where ?'a = 32, simplified])
qed

lemma object_bytes_fill_jshort: "object_bytes bo (fill_jshort v) = replicate 2 v"
proof -
  have "fill_jshort v = word_rcat (replicate 2 v)"
    by (simp only: fill_jshort_mult rcat2 replicate_numerals)
  then show ?thesis
    by (simp only: le_bytes_replicate [of 2 bo v, where ?'a = 16, simplified])
qed

subsection \<open>The memory after the element copy\<close>

lemma unat_of_nat_addr: "j < 2 ^ 64 \<Longrightarrow> unat (of_nat j :: addr) = j"
  by (simp add: unat_of_nat)

lemma unat_lt_addr: "unat (n :: addr) < 2 ^ 64"
  using unsigned_less [of n] by simp

lemma moved_at:
  assumes "j < unat byte_count"
  shows "moved w swap src dst byte_count m (dst + of_nat j) =
         m (src + of_nat (elem_index w swap j))"
proof -
  from assms unat_lt_addr [of byte_count] have "j < 2 ^ 64" by linarith
  then have "unat (dst + of_nat j - dst) = j"
    by (simp add: unat_of_nat_addr)
  with assms show ?thesis
    by (simp add: moved_def)
qed

lemma moved_copy_reference:
  "moved w False src dst n m = reference_copy src dst n m"
proof -
  have "length (memcpy_from src (unat n) m) = unat n"
    by (simp add: memcpy_from_eq)
  moreover have "unat n \<le> 2 ^ 64"
    using unat_lt_addr [of n] by simp
  ultimately show ?thesis
    by (auto simp: reference_copy_def memcpy_to_eq moved_def elem_index_def memcpy_from_eq)
qed

lemma elem_index_involution:
  assumes "0 < w"
  shows "elem_index w swap (elem_index w swap j) = j"
proof (cases swap)
  case False
  then show ?thesis by (simp add: elem_index_def)
next
  case True
  let ?r = "w - 1 - j mod w"
  from assms have r: "?r < w" by simp
  then have "(j div w * w + ?r) div w = j div w" "(j div w * w + ?r) mod w = ?r"
    by simp_all
  moreover from assms have "w - 1 - ?r = j mod w"
    by (simp add: Suc_leI less_imp_diff_less)
  ultimately show ?thesis
    using True by (simp add: elem_index_def)
qed

lemma elem_index_in_elem:
  assumes "j < w"
  shows "elem_index w swap (i * w + j) = i * w + (if swap then w - 1 - j else j)"
  using assms by (simp add: elem_index_def)

text \<open>
  Claim C1. For every element width in \<open>{2, 4, 8}\<close>, every byte count that is a multiple
  of it and any two valid ranges, whatever their distance, their overlap and their
  alignment, \<^verbatim>\<open>conjoint_copy\<close> returns the memory that the reference produces: the source
  bytes copied into a separate temporary buffer, and the temporary copied to the
  destination.
\<close>

theorem conjoint_copy_reference:
  assumes "preconditions src dst n w" and "valid_range src n" and "valid_range dst n"
  shows "conjoint_copy bo src dst n w m = Inr (reference_copy src dst n m)"
  using conjoint_copy_moved [OF assms, of bo m]
  by (simp add: moved_copy_reference)

theorem conjoint_copy_reference_witness:
  "conjoint_copy BigEndian 0x1001 0x1003 8 2 (\<lambda>a. ucast a) =
   Inr (reference_copy 0x1001 0x1003 8 (\<lambda>a. ucast a))"
  using conjoint_copy_reference [of "0x1001" "0x1003" 8 2 BigEndian "\<lambda>a. ucast a"]
  by (simp add: preconditions_def valid_range_def)

lemma bytes_at_moved:
  assumes w: "0 < w" and i: "i < unat n div w" and mult: "unat n mod w = 0"
  shows "bytes_at (dst + of_nat (i * w)) w (moved w swap src dst n m) =
         (if swap then rev (bytes_at (src + of_nat (i * w)) w m)
          else bytes_at (src + of_nat (i * w)) w m)"
proof (rule nth_equalityI)
  show "length (bytes_at (dst + of_nat (i * w)) w (moved w swap src dst n m)) =
        length (if swap then rev (bytes_at (src + of_nat (i * w)) w m)
                else bytes_at (src + of_nat (i * w)) w m)"
    by (simp add: bytes_at_def)
next
  fix j
  assume "j < length (bytes_at (dst + of_nat (i * w)) w (moved w swap src dst n m))"
  then have j: "j < w" by (simp add: bytes_at_def)
  from i have "Suc i * w \<le> unat n div w * w"
    by (meson Suc_leI mult_le_mono1)
  also have "\<dots> = unat n" using mult by (simp add: mod_0_imp_dvd)
  finally have "i * w + w \<le> unat n" by simp
  with j have lt: "i * w + j < unat n" by linarith
  have "moved w swap src dst n m (dst + of_nat (i * w + j)) =
        m (src + of_nat (elem_index w swap (i * w + j)))"
    by (rule moved_at [OF lt])
  then have "moved w swap src dst n m (dst + of_nat (i * w) + of_nat j) =
             m (src + of_nat (i * w) + of_nat (if swap then w - 1 - j else j))"
    by (simp add: elem_index_in_elem [OF j] add.assoc del: of_nat_mult)
  with j show "bytes_at (dst + of_nat (i * w)) w (moved w swap src dst n m) ! j =
        (if swap then rev (bytes_at (src + of_nat (i * w)) w m)
         else bytes_at (src + of_nat (i * w)) w m) ! j"
    by (simp add: bytes_at_def rev_nth del: of_nat_mult)
qed

lemma preconditions_width:
  "preconditions src dst n w \<Longrightarrow> 0 < unat w"
  by (auto simp: preconditions_def)

lemma conjoint_swap_elements:
  assumes "preconditions src dst n w" and "valid_range src n" and "valid_range dst n"
  shows "\<exists>m'. conjoint_swap bo src dst n w m = Inr m' \<and>
           (\<forall>i < unat n div unat w.
              bytes_at (dst + of_nat (i * unat w)) (unat w) m' =
              rev (bytes_at (src + of_nat (i * unat w)) (unat w) m))"
proof -
  from assms(1) have mult: "unat n mod unat w = 0"
    by (simp add: preconditions_def)
  have "conjoint_swap bo src dst n w m = Inr (moved (unat w) True src dst n m)"
    by (rule conjoint_swap_moved [OF assms])
  moreover have "bytes_at (dst + of_nat (i * unat w)) (unat w) (moved (unat w) True src dst n m) =
      rev (bytes_at (src + of_nat (i * unat w)) (unat w) m)" if "i < unat n div unat w" for i
    using bytes_at_moved [OF preconditions_width [OF assms(1)] that mult, where swap = True]
    by simp
  ultimately show ?thesis by blast
qed

subsection \<open>The fill loops\<close>

lemma store_pattern:
  fixes fill :: "'a::len word"
  assumes "object_bytes bo fill = replicate (sizeof TYPE('a)) v"
  shows "store bo p fill m = (\<lambda>x. if unat (x - p) < sizeof TYPE('a) then v else m x)"
  by (auto simp: store_def assms)

lemma fill_for_result:
  fixes fill :: "'a::len word"
  assumes pat: "object_bytes bo fill = replicate (sizeof TYPE('a)) v"
    and pos: "0 < sizeof TYPE('a)"
    and rem: "unat size' = unat off + k * sizeof TYPE('a)"
  shows "fill_for bo dst fill size' off tr m =
         Some (tr @ map (\<lambda>i. Store (dst + off + of_nat (i * sizeof TYPE('a))) (sizeof TYPE('a)))
                      [0..<k],
               \<lambda>x. if unat off \<le> unat (x - dst) \<and> unat (x - dst) < unat size' then v else m x)"
  using rem
proof (induction k arbitrary: off tr m)
  case 0
  then have "\<not> off < size'"
    by (simp add: word_less_nat_alt)
  moreover from 0 have "(\<lambda>x. if unat off \<le> unat (x - dst) \<and> unat (x - dst) < unat size' then v else m x) = m"
    by (intro ext) auto
  ultimately show ?case
    by (subst fill_for.simps) simp
next
  case (Suc k)
  let ?w = "sizeof TYPE('a)"
  let ?m1 = "store bo (dst + off) fill m"
  let ?f = "\<lambda>off i. Store (dst + off + of_nat (i * ?w)) ?w"
  from Suc.prems pos have lt: "off < size'"
    by (simp add: word_less_nat_alt)
  have N: "unat size' < 2 ^ 64" by (rule unat_lt_addr)
  with Suc.prems have ow: "unat off + ?w < 2 ^ 64" by simp
  then have "?w < 2 ^ 64" by simp
  then have "unat (of_nat ?w :: addr) = ?w" by (rule unat_of_nat_addr)
  with ow have next_off: "unat (off + of_nat ?w) = unat off + ?w"
    by (simp add: unat_add_lem [THEN iffD1])
  with Suc.prems have "unat size' = unat (off + of_nat ?w) + k * ?w"
    by simp
  from Suc.IH [OF this]
  have IH: "fill_for bo dst fill size' (off + of_nat ?w) (tr @ [Store (dst + off) ?w]) ?m1 =
      Some ((tr @ [Store (dst + off) ?w]) @ map (?f (off + of_nat ?w)) [0..<k],
            \<lambda>x. if unat off + ?w \<le> unat (x - dst) \<and> unat (x - dst) < unat size' then v
                 else ?m1 x)"
    by (simp only: next_off)
  have "(if unat off + ?w \<le> unat (x - dst) \<and> unat (x - dst) < unat size' then v else ?m1 x) =
        (if unat off \<le> unat (x - dst) \<and> unat (x - dst) < unat size' then v else m x)" for x
  proof -
    define j where "j = unat (x - dst)"
    have "unat (x - (dst + off)) = unat ((x - dst) - off)"
      by (simp add: diff_diff_eq)
    also have "\<dots> = (if unat off \<le> j then j - unat off else j + 2 ^ 64 - unat off)"
      by (simp add: unat_sub_if_size word_size j_def)
    finally have off: "unat (x - (dst + off)) =
        (if unat off \<le> j then j - unat off else j + 2 ^ 64 - unat off)" .
    have m1: "?m1 x = (if unat (x - (dst + off)) < ?w then v else m x)"
      by (simp add: store_pattern [OF pat])
    from Suc.prems have le: "unat off + ?w \<le> unat size'" by simp
    show ?thesis
      unfolding m1 off j_def [symmetric] using ow le by auto
  qed
  then have mem: "(\<lambda>x. if unat off + ?w \<le> unat (x - dst) \<and> unat (x - dst) < unat size' then v else ?m1 x) =
        (\<lambda>x. if unat off \<le> unat (x - dst) \<and> unat (x - dst) < unat size' then v else m x)"
    by (rule ext)
  have "[0..<Suc k] = 0 # map Suc [0..<k]"
    by (simp add: upt_conv_Cons map_Suc_upt del: upt_Suc)
  then have "map (?f off) [0..<Suc k] = ?f off 0 # map (?f off \<circ> Suc) [0..<k]"
    by (simp only: list.map map_map)
  moreover have "?f off \<circ> Suc = ?f (off + of_nat ?w)"
    by (auto simp: fun_eq_iff algebra_simps)
  ultimately have tr: "(tr @ [Store (dst + off) ?w]) @ map (?f (off + of_nat ?w)) [0..<k] =
      tr @ map (?f off) [0..<Suc k]"
    by (simp del: upt_Suc of_nat_mult)
  from IH lt show ?case
    by (subst fill_for.simps) (simp only: if_True mem tr)
qed

subsection \<open>The selection of the unit\<close>

lemma or_mod_2p:
  fixes a b :: addr
  shows "(a OR b) mod 2 ^ k = 0 \<longleftrightarrow> a mod 2 ^ k = 0 \<and> b mod 2 ^ k = 0"
  by (simp add: or_eq_0_iff flip: take_bit_eq_mod)

lemma or_mod_numerals:
  fixes a b :: addr
  shows "(a OR b) mod 8 = 0 \<longleftrightarrow> a mod 8 = 0 \<and> b mod 8 = 0"
    and "(a OR b) mod 4 = 0 \<longleftrightarrow> a mod 4 = 0 \<and> b mod 4 = 0"
    and "(a OR b) mod 2 = 0 \<longleftrightarrow> a mod 2 = 0 \<and> b mod 2 = 0"
  using or_mod_2p [of a b 3] or_mod_2p [of a b 2] or_mod_2p [of a b 1]
  by simp_all

lemma mod_numeral_unat:
  fixes a :: addr
  shows "a mod 8 = 0 \<longleftrightarrow> unat a mod 8 = 0"
    and "a mod 4 = 0 \<longleftrightarrow> unat a mod 4 = 0"
    and "a mod 2 = 0 \<longleftrightarrow> unat a mod 2 = 0"
  using is_aligned_unat [of a 8] is_aligned_unat [of a 4] is_aligned_unat [of a 2]
  by (simp_all add: is_aligned_def)

lemma fold_traced:
  "fold (\<lambda>i (tr, m). (tr @ ev i, f i m)) is (tr0, m0) =
   (tr0 @ concat (map ev is), fold f is m0)"
  by (induction "is" arbitrary: tr0 m0) simp_all

lemma conjoint_units_atomic_eq:
  fixes T :: "'a::len itself"
  shows "conjoint_units_atomic T bo from to count m =
         (unit_copies (sizeof T) from to (unat count),
          fold (\<lambda>i m. store bo (to + of_nat (i * sizeof T))
                        (load bo (from + of_nat (i * sizeof T)) m :: 'a word) m)
               [0..<unat count] m)"
  unfolding conjoint_units_atomic_def unit_copies_def
  by (simp only: fold_traced append_Nil)

lemma conjoint_jbytes_eq:
  "conjoint_jbytes from to count m =
     (unit_copies 1 from to (unat count),
      fold (\<lambda>i m. m(to + of_nat i := m (from + of_nat i))) [0..<unat count] m)"
proof -
  have "conjoint_jbytes from to count m =
      ([] @ concat (map (\<lambda>i. [Load (from + of_nat i) 1, Store (to + of_nat i) 1]) [0..<unat count]),
       fold (\<lambda>i m. m(to + of_nat i := m (from + of_nat i))) [0..<unat count] m)"
    unfolding conjoint_jbytes_def by (rule fold_traced)
  then show ?thesis
    by (simp add: unit_copies_def)
qed

lemma fill_for_whole:
  fixes fill :: "'a::len word"
  assumes pat: "object_bytes bo fill = replicate (sizeof TYPE('a)) v"
    and pos: "0 < sizeof TYPE('a)"
    and mult: "unat size' mod sizeof TYPE('a) = 0"
  shows "fill_for bo dst fill size' 0 [] m =
         Some (unit_stores (sizeof TYPE('a)) dst (unat size' div sizeof TYPE('a)),
               \<lambda>x. if in_range dst size' x then v else m x)"
proof -
  from mult have "unat size' = unat (0 :: addr) + (unat size' div sizeof TYPE('a)) * sizeof TYPE('a)"
    by (simp add: mod_0_imp_dvd)
  from fill_for_result [OF pat pos this] show ?thesis
    by (simp add: in_range_def unit_stores_def del: of_nat_mult)
qed

lemma classify_chain:
  "classify operands =
     (if foldr (OR) operands 0 mod 8 = 0 then 8
      else if foldr (OR) operands 0 mod 4 = 0 then 4
      else if foldr (OR) operands 0 mod 2 = 0 then 2
      else 1)"
proof -
  define N where "N = unat (foldr (OR) operands 0)"
  have d: "8 dvd N \<Longrightarrow> 4 dvd N" "4 dvd N \<Longrightarrow> 2 dvd N"
    by (auto elim: dvd_trans [rotated])
  consider "8 dvd N" | "\<not> 8 dvd N" "4 dvd N" | "\<not> 4 dvd N" "2 dvd N" | "\<not> 2 dvd N"
    by blast
  then have "Max {u \<in> {8, 4, 2, 1}. u dvd N} =
      (if 8 dvd N then 8 else if 4 dvd N then 4 else if 2 dvd N then 2 else 1)"
  proof cases
    case 1
    with d have "{u \<in> {8, 4, 2, 1}. u dvd N} = {8, 4, 2, 1}" by auto
    with 1 show ?thesis by simp
  next
    case 2
    with d have "{u \<in> {8, 4, 2, 1}. u dvd N} = {4, 2, 1}" by auto
    with 2 show ?thesis by simp
  next
    case 3
    with d have "{u \<in> {8, 4, 2, 1}. u dvd N} = {2, 1}" by auto
    with 3 d show ?thesis by auto
  next
    case 4
    with d have "{u \<in> {8, 4, 2, 1}. u dvd N} = {1}" by auto
    with 4 d show ?thesis by auto
  qed
  then show ?thesis
    by (simp add: classify_def mod_numeral_unat dvd_eq_mod_eq_0 N_def)
qed

lemma fill_to_memory_atomic_traced_result:
  "fill_to_memory_atomic_traced bo to size' v m =
     Some (unit_stores (classify [to, size']) to (unat size' div classify [to, size']),
           \<lambda>x. if in_range to size' x then v else m x)"
proof -
  let ?m' = "\<lambda>x. if in_range to size' x then v else m x"
  have 8: "fill_for bo to (fill_jlong v) size' 0 [] m = Some (unit_stores 8 to (unat size' div 8), ?m')"
    if "unat size' mod 8 = 0"
    using that fill_for_whole [of bo "fill_jlong v" v size' to m]
    by (simp add: sizeof_def object_bytes_fill_jlong)
  have 4: "fill_for bo to (fill_jint v) size' 0 [] m = Some (unit_stores 4 to (unat size' div 4), ?m')"
    if "unat size' mod 4 = 0"
    using that fill_for_whole [of bo "fill_jint v" v size' to m]
    by (simp add: sizeof_def object_bytes_fill_jint)
  have 2: "fill_for bo to (fill_jshort v) size' 0 [] m = Some (unit_stores 2 to (unat size' div 2), ?m')"
    if "unat size' mod 2 = 0"
    using that fill_for_whole [of bo "fill_jshort v" v size' to m]
    by (simp add: sizeof_def object_bytes_fill_jshort)
  have 1: "fill_for bo to v size' 0 [] m = Some (unit_stores 1 to (unat size'), ?m')"
    using fill_for_whole [of bo v v size' to m]
    by (simp add: sizeof_def object_bytes_byte)
  have a: "(to OR size') mod 8 = 0 \<Longrightarrow> unat size' mod 8 = 0"
    "(to OR size') mod 4 = 0 \<Longrightarrow> unat size' mod 4 = 0"
    "(to OR size') mod 2 = 0 \<Longrightarrow> unat size' mod 2 = 0"
    by (simp_all add: or_mod_numerals mod_numeral_unat [symmetric])
  show ?thesis
  proof (cases "(to OR size') mod 8 = 0")
    case True
    with 8 [OF a(1) [OF True]] show ?thesis
      by (simp add: fill_to_memory_atomic_traced_def classify_chain)
  next
    case n8: False
    show ?thesis
    proof (cases "(to OR size') mod 4 = 0")
      case True
      with n8 4 [OF a(2) [OF True]] show ?thesis
        by (simp add: fill_to_memory_atomic_traced_def classify_chain)
    next
      case n4: False
      show ?thesis
      proof (cases "(to OR size') mod 2 = 0")
        case True
        with n8 n4 2 [OF a(3) [OF True]] show ?thesis
          by (simp add: fill_to_memory_atomic_traced_def classify_chain)
      next
        case False
        with n8 n4 1 show ?thesis
          by (simp add: fill_to_memory_atomic_traced_def fill_to_bytes_def classify_chain)
      qed
    qed
  qed
qed

lemma conjoint_memory_atomic_traced_trace:
  "fst (conjoint_memory_atomic_traced bo from to size' m) =
     unit_copies (classify [from, to, size']) from to
       (unat size' div classify [from, to, size'])"
  by (simp add: conjoint_memory_atomic_traced_def classify_chain Let_def
      conjoint_jlongs_atomic_def conjoint_jints_atomic_def conjoint_jshorts_atomic_def
      conjoint_units_atomic_eq conjoint_jbytes_eq sizeof_def unat_div)

lemma fill_to_memory_atomic_result:
  "fill_to_memory_atomic bo to size' v m = Some (\<lambda>x. if in_range to size' x then v else m x)"
  by (simp add: fill_to_memory_atomic_def fill_to_memory_atomic_traced_result)

lemma in_range_offset:
  assumes "j < unat n"
  shows "in_range p n (p + of_nat j)"
proof -
  from assms unat_lt_addr [of n] have "j < 2 ^ 64" by linarith
  then have "unat (p + of_nat j - p) = j"
    by (simp add: unat_of_nat_addr)
  with assms show ?thesis
    by (simp add: in_range_def)
qed

lemma bytes_at_filled:
  assumes "n \<le> unat size'"
  shows "bytes_at to n (\<lambda>x. if in_range to size' x then v else m x) = replicate n v"
proof (rule nth_equalityI)
  show "length (bytes_at to n (\<lambda>x. if in_range to size' x then v else m x)) =
        length (replicate n v)"
    by (simp add: bytes_at_def)
next
  fix i
  assume "i < length (bytes_at to n (\<lambda>x. if in_range to size' x then v else m x))"
  then have i: "i < n" by (simp add: bytes_at_def)
  with assms have "in_range to size' (to + of_nat i)"
    by (intro in_range_offset) simp
  with i show "bytes_at to n (\<lambda>x. if in_range to size' x then v else m x) ! i =
               replicate n v ! i"
    by (simp add: bytes_at_def)
qed

text \<open>
  Claim C5. For every destination address, every size and every fill byte,
  \<^verbatim>\<open>fill_to_memory_atomic\<close> returns, and each of the \<open>size\<close> bytes of the destination then
  equals the fill byte. The patterns built by doubling are the fill byte repeated over 2,
  4 and 8 bytes. Filling 64 bytes with \<open>0xAB\<close> at an address that is a multiple of 8
  leaves 64 bytes \<open>0xAB\<close>.
\<close>

theorem fill_to_memory_atomic_fills:
  "(\<exists>m'. fill_to_memory_atomic bo to size' v m = Some m' \<and>
         (\<forall>j < unat size'. m' (to + of_nat j) = v)) \<and>
   object_bytes bo (fill_jshort v) = replicate 2 v \<and>
   object_bytes bo (fill_jint v) = replicate 4 v \<and>
   object_bytes bo (fill_jlong v) = replicate 8 v \<and>
   (buf mod 8 = 0 \<longrightarrow>
      (\<exists>m'. fill_to_memory_atomic bo buf 64 0xAB m = Some m' \<and>
            bytes_at buf 64 m' = replicate 64 0xAB))"
proof (intro conjI impI)
  show "\<exists>m'. fill_to_memory_atomic bo to size' v m = Some m' \<and>
         (\<forall>j < unat size'. m' (to + of_nat j) = v)"
    by (simp add: fill_to_memory_atomic_result in_range_offset)
  show "object_bytes bo (fill_jshort v) = replicate 2 v"
    by (rule object_bytes_fill_jshort)
  show "object_bytes bo (fill_jint v) = replicate 4 v"
    by (rule object_bytes_fill_jint)
  show "object_bytes bo (fill_jlong v) = replicate 8 v"
    by (rule object_bytes_fill_jlong)
  have "bytes_at buf 64 (\<lambda>x. if in_range buf 64 x then 0xAB else m x) = replicate 64 0xAB"
    by (rule bytes_at_filled) simp
  then show "\<exists>m'. fill_to_memory_atomic bo buf 64 0xAB m = Some m' \<and>
            bytes_at buf 64 m' = replicate 64 0xAB"
    by (simp add: fill_to_memory_atomic_result)
qed

theorem fill_to_memory_atomic_fills_witness:
  "(0x1000 :: addr) mod 8 = 0 \<and>
   (\<exists>m'. fill_to_memory_atomic LittleEndian 0x1000 64 0xAB (\<lambda>a. 0) = Some m' \<and>
         bytes_at 0x1000 64 m' = replicate 64 0xAB)"
  using fill_to_memory_atomic_fills [of LittleEndian 0 0 0 "\<lambda>a. 0" "0x1000"]
  by simp

text \<open>
  Claim C4. The classifier of the spec, the largest of 8, 4, 2 and 1 that divides the
  bitwise OR of the operands, is 8 on \<open>{8, 16, 24}\<close>, 2 on \<open>{4, 6, 8}\<close> and 1 on
  \<open>{1, 2, 4}\<close>. The entry points choose their unit by it: every access that
  \<^verbatim>\<open>conjoint_memory_atomic\<close> makes is a load or a store of as many bytes as the classifier
  gives for \<open>{from, to, size}\<close>, and every access that \<^verbatim>\<open>fill_to_memory_atomic\<close> makes is a
  store of as many bytes as it gives for \<open>{to, size}\<close>, one for each unit of the range in
  ascending order. On the three operand sets \<^verbatim>\<open>conjoint_memory_atomic\<close> makes the accesses
  listed.
\<close>

theorem classify_selects_unit:
  "classify [8, 16, 24] = 8 \<and> classify [4, 6, 8] = 2 \<and> classify [1, 2, 4] = 1 \<and>
   fst (conjoint_memory_atomic_traced bo from to size' m) =
     unit_copies (classify [from, to, size']) from to
       (unat size' div classify [from, to, size']) \<and>
   map_option fst (fill_to_memory_atomic_traced bo to size' v m) =
     Some (unit_stores (classify [to, size']) to (unat size' div classify [to, size'])) \<and>
   fst (conjoint_memory_atomic_traced bo 8 16 24 m) =
     [Load 8 8, Store 16 8, Load 16 8, Store 24 8, Load 24 8, Store 32 8] \<and>
   fst (conjoint_memory_atomic_traced bo 4 6 8 m) =
     [Load 4 2, Store 6 2, Load 6 2, Store 8 2, Load 8 2, Store 10 2, Load 10 2, Store 12 2] \<and>
   fst (conjoint_memory_atomic_traced bo 1 2 4 m) =
     [Load 1 1, Store 2 1, Load 2 1, Store 3 1, Load 3 1, Store 4 1, Load 4 1, Store 5 1]"
proof (intro conjI)
  show c: "classify [8, 16, 24] = 8" "classify [4, 6, 8] = 2" "classify [1, 2, 4] = 1"
    by (simp_all add: classify_chain)
  show "fst (conjoint_memory_atomic_traced bo from to size' m) =
     unit_copies (classify [from, to, size']) from to
       (unat size' div classify [from, to, size'])"
    by (rule conjoint_memory_atomic_traced_trace)
  show "map_option fst (fill_to_memory_atomic_traced bo to size' v m) =
     Some (unit_stores (classify [to, size']) to (unat size' div classify [to, size']))"
    by (simp add: fill_to_memory_atomic_traced_result)
  show "fst (conjoint_memory_atomic_traced bo 8 16 24 m) =
     [Load 8 8, Store 16 8, Load 16 8, Store 24 8, Load 24 8, Store 32 8]"
    by (simp add: conjoint_memory_atomic_traced_trace c unit_copies_def upt_rec)
  show "fst (conjoint_memory_atomic_traced bo 4 6 8 m) =
     [Load 4 2, Store 6 2, Load 6 2, Store 8 2, Load 8 2, Store 10 2, Load 10 2, Store 12 2]"
    by (simp add: conjoint_memory_atomic_traced_trace c unit_copies_def upt_rec)
  show "fst (conjoint_memory_atomic_traced bo 1 2 4 m) =
     [Load 1 1, Store 2 1, Load 2 1, Store 3 1, Load 3 1, Store 4 1, Load 4 1, Store 5 1]"
    by (simp add: conjoint_memory_atomic_traced_trace c unit_copies_def upt_rec)
qed

text \<open>
  Claim C7, as the spec states it, fails: the classifier is not 1 on the operands
  \<open>{0, 1024}\<close>, and the first access of \<^verbatim>\<open>fill_to_memory_atomic\<close> at address 0 with size
  1024 is a store of 8 bytes.
\<close>

theorem classify_zero_operand_counterexample:
  "classify [0, 1024] \<noteq> 1 \<and>
   map_option (hd \<circ> fst) (fill_to_memory_atomic_traced LittleEndian 0 1024 0xAB zeroed) =
     Some (Store 0 8)"
proof -
  have c: "classify [0, 1024] = 8"
    by (simp add: classify_chain)
  have "hd (unit_stores 8 0 128) = Store 0 8"
    by (simp add: unit_stores_def hd_map)
  with c show ?thesis
    by (simp add: fill_to_memory_atomic_traced_result)
qed

text \<open>
  Claim C7, amended. On the operands \<open>{0, 1024}\<close> the classifier gives 8, and
  \<^verbatim>\<open>fill_to_memory_atomic\<close> at address 0 with size 1024 takes the \<^verbatim>\<open>jlong\<close> branch: it makes
  128 stores of 8 bytes. An operand 0 adds no bit to the bitwise OR, so the unit is the
  one of the other operands.
\<close>

theorem classify_zero_operand:
  "classify [0, 1024] = 8 \<and>
   map_option fst (fill_to_memory_atomic_traced bo 0 1024 v m) = Some (unit_stores 8 0 128) \<and>
   classify (0 # operands) = classify operands"
proof -
  have c: "classify [0, 1024] = 8"
    by (simp add: classify_chain)
  then show ?thesis
    by (simp add: fill_to_memory_atomic_traced_result) (simp add: classify_chain)
qed

lemma preconditions_sym:
  assumes "preconditions src dst n w"
  shows "preconditions src src n w" "preconditions dst src n w" "preconditions dst dst n w"
  using assms by (simp_all add: preconditions_def)

text \<open>
  Claim C2. For every element width in \<open>{2, 4, 8}\<close>, every byte count that is a multiple
  of it and any two valid ranges, overlapping or not, \<^verbatim>\<open>conjoint_swap\<close> leaves at every
  element position of the destination the bytes of the original source element at that
  position in reverse order. Swapping the 4-byte buffer \<open>[1, 2, 3, 4]\<close> in place as one
  element of width 4 gives \<open>[4, 3, 2, 1]\<close>.
\<close>

theorem conjoint_swap_reverses_elements:
  "(preconditions src dst n w \<and> valid_range src n \<and> valid_range dst n \<longrightarrow>
      (\<exists>m'. conjoint_swap bo src dst n w m = Inr m' \<and>
         (\<forall>i < unat n div unat w.
            bytes_at (dst + of_nat (i * unat w)) (unat w) m' =
            rev (bytes_at (src + of_nat (i * unat w)) (unat w) m)))) \<and>
   (buf \<noteq> 0 \<and> valid_range buf 4 \<and> bytes_at buf 4 m0 = [1, 2, 3, 4] \<longrightarrow>
      (\<exists>m'. conjoint_swap bo buf buf 4 4 m0 = Inr m' \<and> bytes_at buf 4 m' = [4, 3, 2, 1]))"
proof (intro conjI impI)
  assume "preconditions src dst n w \<and> valid_range src n \<and> valid_range dst n"
  then show "\<exists>m'. conjoint_swap bo src dst n w m = Inr m' \<and>
         (\<forall>i < unat n div unat w.
            bytes_at (dst + of_nat (i * unat w)) (unat w) m' =
            rev (bytes_at (src + of_nat (i * unat w)) (unat w) m))"
    by (intro conjoint_swap_elements) simp_all
next
  assume a: "buf \<noteq> 0 \<and> valid_range buf 4 \<and> bytes_at buf 4 m0 = [1, 2, 3, 4]"
  then have "preconditions buf buf 4 4" "valid_range buf 4"
    by (simp_all add: preconditions_def)
  from conjoint_swap_elements [OF this(1) this(2) this(2), of bo m0]
  obtain m' where m': "conjoint_swap bo buf buf 4 4 m0 = Inr m'"
    "\<forall>i < unat (4 :: addr) div unat (4 :: addr).
       bytes_at (buf + of_nat (i * unat (4 :: addr))) (unat (4 :: addr)) m' =
       rev (bytes_at (buf + of_nat (i * unat (4 :: addr))) (unat (4 :: addr)) m0)"
    by blast
  from m'(2) have "bytes_at buf 4 m' = rev (bytes_at buf 4 m0)"
    by simp
  with a m'(1) show "\<exists>m'. conjoint_swap bo buf buf 4 4 m0 = Inr m' \<and> bytes_at buf 4 m' = [4, 3, 2, 1]"
    by simp
qed

theorem conjoint_swap_reverses_elements_witness:
  "(\<exists>m'. conjoint_swap LittleEndian 0x1001 0x1003 8 4 (\<lambda>a. ucast a) = Inr m' \<and>
         (\<forall>i < unat (8 :: addr) div unat (4 :: addr).
            bytes_at (0x1003 + of_nat (i * unat (4 :: addr))) (unat (4 :: addr)) m' =
            rev (bytes_at (0x1001 + of_nat (i * unat (4 :: addr))) (unat (4 :: addr))
                   (\<lambda>a. ucast a)))) \<and>
   (\<exists>m'. conjoint_swap LittleEndian 0x2000 0x2000 4 4 (\<lambda>a. ucast (a - 0x2000) + 1) = Inr m' \<and>
         bytes_at 0x2000 4 m' = [4, 3, 2, 1])"
proof -
  have "preconditions 0x1001 0x1003 8 4 \<and> valid_range 0x1001 8 \<and> valid_range 0x1003 8"
    by (simp add: preconditions_def valid_range_def)
  moreover have "(0x2000 :: addr) \<noteq> 0 \<and> valid_range 0x2000 4 \<and>
      bytes_at 0x2000 4 (\<lambda>a. ucast (a - 0x2000) + 1) = [1, 2, 3, 4]"
    by (simp add: valid_range_def bytes_at_def upt_rec)
  ultimately show ?thesis
    using conjoint_swap_reverses_elements
      [of "0x1001" "0x1003" 8 4 LittleEndian "\<lambda>a. ucast a" "0x2000" "\<lambda>a. ucast (a - 0x2000) + 1"]
    by blast
qed

lemma moved_twice_in_place:
  assumes w: "0 < w" and mult: "unat n mod w = 0"
  shows "moved w True src src n (moved w True src src n m) = m"
proof
  fix x
  let ?m1 = "moved w True src src n m"
  define j where "j = unat (x - src)"
  have x: "src + of_nat j = x" by (simp add: j_def)
  show "moved w True src src n ?m1 x = m x"
  proof (cases "j < unat n")
    case False
    then show ?thesis by (simp add: moved_def j_def)
  next
    case True
    from mult have "unat n div w * w = unat n" by (simp add: mod_0_imp_dvd)
    with True have "j < unat n div w * w" by simp
    from elem_index_less [OF w this, of True] \<open>unat n div w * w = unat n\<close>
    have lt: "elem_index w True j < unat n" by simp
    have "moved w True src src n ?m1 x = ?m1 (src + of_nat (elem_index w True j))"
      using True by (simp add: moved_def j_def)
    also have "\<dots> = m (src + of_nat (elem_index w True (elem_index w True j)))"
      by (rule moved_at [OF lt])
    also have "\<dots> = m x"
      by (simp only: elem_index_involution [OF w] x)
    finally show ?thesis .
  qed
qed

lemma moved_there_and_back:
  assumes w: "0 < w" and mult: "unat n mod w = 0"
  shows "bytes_at src (unat n) (moved w True dst src n (moved w True src dst n m)) =
         bytes_at src (unat n) m"
proof -
  let ?m1 = "moved w True src dst n m"
  have "moved w True dst src n ?m1 (src + of_nat j) = m (src + of_nat j)" if j: "j < unat n" for j
  proof -
    from mult have "unat n div w * w = unat n" by (simp add: mod_0_imp_dvd)
    with j have "j < unat n div w * w" by simp
    from elem_index_less [OF w this, of True] \<open>unat n div w * w = unat n\<close>
    have lt: "elem_index w True j < unat n" by simp
    have "moved w True dst src n ?m1 (src + of_nat j) = ?m1 (dst + of_nat (elem_index w True j))"
      by (rule moved_at [OF j])
    also have "\<dots> = m (src + of_nat (elem_index w True (elem_index w True j)))"
      by (rule moved_at [OF lt])
    finally show ?thesis
      by (simp only: elem_index_involution [OF w])
  qed
  then show ?thesis
    by (simp add: bytes_at_def)
qed

text \<open>
  Claim C3. For every element width in \<open>{2, 4, 8}\<close>, every byte count that is a multiple
  of it and valid ranges, \<^verbatim>\<open>conjoint_swap\<close> applied twice in place gives back the original
  memory, and \<^verbatim>\<open>conjoint_swap\<close> to a destination followed by \<^verbatim>\<open>conjoint_swap\<close> from that
  destination back gives back the original bytes of the buffer; the destination need not
  even be disjoint from the buffer.
\<close>

theorem conjoint_swap_involution:
  assumes "preconditions src dst n w" and "valid_range src n" and "valid_range dst n"
  shows "(\<exists>m1. conjoint_swap bo src src n w m = Inr m1 \<and>
               conjoint_swap bo src src n w m1 = Inr m) \<and>
         (\<exists>m1 m2. conjoint_swap bo src dst n w m = Inr m1 \<and>
                  conjoint_swap bo dst src n w m1 = Inr m2 \<and>
                  bytes_at src (unat n) m2 = bytes_at src (unat n) m)"
proof -
  note p = preconditions_sym [OF assms(1)]
  from assms(1) have mult: "unat n mod unat w = 0"
    by (simp add: preconditions_def)
  note w = preconditions_width [OF assms(1)]
  have same: "conjoint_swap bo src src n w m' = Inr (moved (unat w) True src src n m')" for m'
    by (rule conjoint_swap_moved [OF p(1) assms(2) assms(2)])
  have there: "conjoint_swap bo src dst n w m = Inr (moved (unat w) True src dst n m)"
    by (rule conjoint_swap_moved [OF assms])
  have ret: "conjoint_swap bo dst src n w m' = Inr (moved (unat w) True dst src n m')" for m'
    by (rule conjoint_swap_moved [OF p(2) assms(3) assms(2)])
  show ?thesis
    by (simp add: same there ret moved_twice_in_place [OF w mult]
        moved_there_and_back [OF w mult])
qed

theorem conjoint_swap_involution_witness:
  "(\<exists>m1. conjoint_swap BigEndian 0x1000 0x1000 16 8 (\<lambda>a. ucast a) = Inr m1 \<and>
         conjoint_swap BigEndian 0x1000 0x1000 16 8 m1 = Inr (\<lambda>a. ucast a)) \<and>
   (\<exists>m1 m2. conjoint_swap BigEndian 0x1000 0x2000 16 8 (\<lambda>a. ucast a) = Inr m1 \<and>
            conjoint_swap BigEndian 0x2000 0x1000 16 8 m1 = Inr m2 \<and>
            bytes_at 0x1000 (unat (16 :: addr)) m2 = bytes_at 0x1000 (unat (16 :: addr)) (\<lambda>a. ucast a))"
  using conjoint_swap_involution [of "0x1000" "0x2000" 16 8 BigEndian "\<lambda>a. ucast a"]
  by (simp add: preconditions_def valid_range_def)

subsection \<open>The order of the element transfers\<close>

lemma copy_elems_RIGHT_fold:
  "copy_elems RIGHT w swap k s d m =
   fold (\<lambda>i. copy_elem w swap (s + of_nat (i * w)) (d + of_nat (i * w))) [0..<k] m"
proof (induction k arbitrary: s d m)
  case 0
  show ?case by simp
next
  case (Suc k)
  let ?f = "\<lambda>s d i. copy_elem w swap (s + of_nat (i * w)) (d + of_nat (i * w))"
  have "[0..<Suc k] = 0 # map Suc [0..<k]"
    by (simp add: upt_conv_Cons map_Suc_upt del: upt_Suc)
  then have "fold (?f s d) [0..<Suc k] m = fold (?f s d \<circ> Suc) [0..<k] (?f s d 0 m)"
    by (simp only: fold_simps fold_map)
  moreover have "?f s d \<circ> Suc = ?f (s + of_nat w) (d + of_nat w)"
    by (auto simp: fun_eq_iff algebra_simps)
  ultimately show ?case
    by (simp add: Suc.IH del: upt_Suc of_nat_mult)
qed

lemma copy_elems_LEFT_fold:
  "copy_elems LEFT w swap k (s + of_nat (k * w) - of_nat w) (d + of_nat (k * w) - of_nat w) m =
   fold (\<lambda>i. copy_elem w swap (s + of_nat (i * w)) (d + of_nat (i * w))) (rev [0..<k]) m"
proof (induction k arbitrary: m)
  case 0
  show ?case by simp
next
  case (Suc k)
  have start: "s + of_nat (Suc k * w) - of_nat w = s + of_nat (k * w)"
    "d + of_nat (Suc k * w) - of_nat w = d + of_nat (k * w)"
    by simp_all
  show ?case
    by (simp only: start copy_elems.simps CopyDirection.case Suc.IH upt_Suc_append [OF le0]
        rev_append rev.simps append.simps fold_simps)
qed

lemma elem_accesses_RIGHT_concat:
  "elem_accesses RIGHT w sa da k s d =
   concat (map (\<lambda>i. [(if sa then Load else MemcpyFrom) (s + of_nat (i * w)) w,
                       (if da then Store else MemcpyTo) (d + of_nat (i * w)) w]) [0..<k])"
proof (induction k arbitrary: s d)
  case 0
  show ?case by simp
next
  case (Suc k)
  let ?f = "\<lambda>s d i. [(if sa then Load else MemcpyFrom) (s + of_nat (i * w)) w,
                       (if da then Store else MemcpyTo) (d + of_nat (i * w)) w]"
  have "[0..<Suc k] = 0 # map Suc [0..<k]"
    by (simp add: upt_conv_Cons map_Suc_upt del: upt_Suc)
  then have "concat (map (?f s d) [0..<Suc k]) =
             ?f s d 0 @ concat (map (?f s d \<circ> Suc) [0..<k])"
    by (simp only: list.map concat.simps map_map)
  moreover have "?f s d \<circ> Suc = ?f (s + of_nat w) (d + of_nat w)"
    by (auto simp: fun_eq_iff algebra_simps)
  ultimately show ?case
    using Suc.IH [of "s + of_nat w" "d + of_nat w"]
    by (cases sa; cases da) (simp_all del: upt_Suc of_nat_mult)
qed

lemma elem_accesses_LEFT_concat:
  "elem_accesses LEFT w sa da k (s + of_nat (k * w) - of_nat w) (d + of_nat (k * w) - of_nat w) =
   concat (map (\<lambda>i. [(if sa then Load else MemcpyFrom) (s + of_nat (i * w)) w,
                       (if da then Store else MemcpyTo) (d + of_nat (i * w)) w]) (rev [0..<k]))"
proof (induction k)
  case 0
  show ?case by simp
next
  case (Suc k)
  have start: "s + of_nat (Suc k * w) - of_nat w = s + of_nat (k * w)"
    "d + of_nat (Suc k * w) - of_nat w = d + of_nat (k * w)"
    by simp_all
  from Suc.IH show ?case
    by (cases sa; cases da)
      (simp_all only: start elem_accesses.simps CopyDirection.case upt_Suc_append [OF le0]
        rev_append rev.simps append.simps list.map concat.simps if_True if_False)
qed

lemma do_conjoint_swap_T_fold:
  fixes T :: "'a::len itself"
  assumes 8: "8 dvd LENGTH('a)" and sz: "sizeof T < 2 ^ 64"
    and mult: "unat byte_count mod sizeof T = 0"
  shows "do_conjoint_swap_T T D swap bo src dst byte_count m =
         (transfers (sizeof T) src dst
            (case D of RIGHT \<Rightarrow> [0..<unat byte_count div sizeof T]
                     | LEFT \<Rightarrow> rev [0..<unat byte_count div sizeof T]),
          fold (\<lambda>i. copy_elem (sizeof T) swap (src + of_nat (i * sizeof T))
                      (dst + of_nat (i * sizeof T)))
            (case D of RIGHT \<Rightarrow> [0..<unat byte_count div sizeof T]
                     | LEFT \<Rightarrow> rev [0..<unat byte_count div sizeof T]) m)"
proof (cases D)
  case RIGHT
  then show ?thesis
    by (simp add: do_conjoint_swap_T_eq [OF 8 sz] copy_elems_RIGHT_fold
        elem_accesses_RIGHT_concat transfers_def del: of_nat_mult)
next
  case LEFT
  let ?k = "unat byte_count div sizeof T"
  from mult have "?k * sizeof T = unat byte_count"
    by (simp add: mod_0_imp_dvd)
  then have "(of_nat (?k * sizeof T) :: addr) = byte_count"
    by simp
  with copy_elems_LEFT_fold [of "sizeof T" swap ?k src dst m]
    elem_accesses_LEFT_concat [of "sizeof T" "is_aligned src (of_nat (sizeof T))"
      "is_aligned dst (of_nat (sizeof T))" ?k src dst] LEFT
  show ?thesis
    by (simp add: do_conjoint_swap_T_eq [OF 8 sz] transfers_def del: of_nat_mult)
qed

lemma do_conjoint_swap_fold:
  assumes es: "elem_size = 2 \<or> elem_size = 4 \<or> elem_size = 8"
    and mult: "unat byte_count mod unat elem_size = 0"
  shows "do_conjoint_swap D swap bo src dst byte_count elem_size m =
         Inr (transfers (unat elem_size) src dst
                (case D of RIGHT \<Rightarrow> [0..<unat byte_count div unat elem_size]
                         | LEFT \<Rightarrow> rev [0..<unat byte_count div unat elem_size]),
              fold (\<lambda>i. copy_elem (unat elem_size) swap (src + of_nat (i * unat elem_size))
                          (dst + of_nat (i * unat elem_size)))
                (case D of RIGHT \<Rightarrow> [0..<unat byte_count div unat elem_size]
                         | LEFT \<Rightarrow> rev [0..<unat byte_count div unat elem_size]) m)"
  using es
proof (elim disjE)
  assume e: "elem_size = 2"
  with mult do_conjoint_swap_T_fold [of "TYPE(16)" byte_count D swap bo src dst m]
  show ?thesis
    by (cases D) (simp_all add: do_conjoint_swap_def sizeof_def)
next
  assume e: "elem_size = 4"
  with mult do_conjoint_swap_T_fold [of "TYPE(32)" byte_count D swap bo src dst m]
  show ?thesis
    by (cases D) (simp_all add: do_conjoint_swap_def sizeof_def)
next
  assume e: "elem_size = 8"
  with mult do_conjoint_swap_T_fold [of "TYPE(64)" byte_count D swap bo src dst m]
  show ?thesis
    by (cases D) (simp_all add: do_conjoint_swap_def sizeof_def)
qed

lemma bytes_at_moved_copy:
  "bytes_at dst (unat n) (moved w False src dst n m) = bytes_at src (unat n) m"
  by (simp add: bytes_at_def moved_at elem_index_def)

text \<open>
  Claim C6. A call of \<^verbatim>\<open>conjoint_swap_if_needed\<close>, which is what \<^verbatim>\<open>conjoint_copy\<close> and
  \<^verbatim>\<open>conjoint_swap\<close> are, that meets the preconditions on valid ranges makes its accesses in
  one order for the whole call: when the destination lies at or before the source, or at
  or after its end, it reads and writes the elements \<open>0, 1, \<dots>\<close> in ascending order from
  the first one; otherwise it reads and writes them in descending order from the last
  one. The memory it leaves is the composition of the element transfers in that order.
  Copying the eight bytes \<open>[0, 1, 2, 3, 4, 5, 6, 7]\<close> as elements of width 2 to the
  address two bytes higher accesses the elements 3, 2, 1, 0 in this order and gives what
  the reference copy (\<^verbatim>\<open>memmove\<close>) gives.
\<close>

theorem conjoint_direction:
  "(preconditions src dst n w \<and> valid_range src n \<and> valid_range dst n \<longrightarrow>
      conjoint_swap_if_needed swap bo src dst n w m =
        Inr (transfers (unat w) src dst
               (if unat dst \<le> unat src \<or> unat src + unat n \<le> unat dst
                then [0..<unat n div unat w] else rev [0..<unat n div unat w]),
             fold (\<lambda>i. copy_elem (unat w) swap (src + of_nat (i * unat w))
                         (dst + of_nat (i * unat w)))
               (if unat dst \<le> unat src \<or> unat src + unat n \<le> unat dst
                then [0..<unat n div unat w] else rev [0..<unat n div unat w]) m)) \<and>
   (buf \<noteq> 0 \<and> valid_range buf 10 \<and> bytes_at buf 8 m0 = [0, 1, 2, 3, 4, 5, 6, 7] \<longrightarrow>
      conjoint_swap_if_needed False bo buf (buf + 2) 8 2 m0 =
        Inr (transfers 2 buf (buf + 2) [3, 2, 1, 0], reference_copy buf (buf + 2) 8 m0) \<and>
      conjoint_copy bo buf (buf + 2) 8 2 m0 = Inr (reference_copy buf (buf + 2) 8 m0) \<and>
      bytes_at (buf + 2) 8 (reference_copy buf (buf + 2) 8 m0) = [0, 1, 2, 3, 4, 5, 6, 7])"
proof (intro conjI impI)
  assume a: "preconditions src dst n w \<and> valid_range src n \<and> valid_range dst n"
  then have p: "src \<noteq> 0" "dst \<noteq> 0" "w = 2 \<or> w = 4 \<or> w = 8" "unat n mod unat w = 0"
    by (simp_all add: preconditions_def)
  from a have t: "dst \<le> src \<or> dst \<ge> src + n \<longleftrightarrow>
      unat dst \<le> unat src \<or> unat src + unat n \<le> unat dst"
    by (intro direction_test) simp_all
  show "conjoint_swap_if_needed swap bo src dst n w m =
        Inr (transfers (unat w) src dst
               (if unat dst \<le> unat src \<or> unat src + unat n \<le> unat dst
                then [0..<unat n div unat w] else rev [0..<unat n div unat w]),
             fold (\<lambda>i. copy_elem (unat w) swap (src + of_nat (i * unat w))
                         (dst + of_nat (i * unat w)))
               (if unat dst \<le> unat src \<or> unat src + unat n \<le> unat dst
                then [0..<unat n div unat w] else rev [0..<unat n div unat w]) m)"
  proof (cases "unat dst \<le> unat src \<or> unat src + unat n \<le> unat dst")
    case True
    with p t do_conjoint_swap_fold [OF p(3,4), of RIGHT swap bo src dst m] show ?thesis
      by (simp add: conjoint_swap_if_needed_def is_aligned_unat)
  next
    case False
    with p t do_conjoint_swap_fold [OF p(3,4), of LEFT swap bo src dst m] show ?thesis
      by (simp add: conjoint_swap_if_needed_def is_aligned_unat)
  qed
next
  assume a: "buf \<noteq> 0 \<and> valid_range buf 10 \<and> bytes_at buf 8 m0 = [0, 1, 2, 3, 4, 5, 6, 7]"
  then have v: "unat buf + 10 \<le> 2 ^ 64"
    by (simp add: valid_range_def)
  then have u: "unat (buf + 2) = unat buf + 2"
    by (simp add: unat_add_lem [THEN iffD1])
  with v a have nz: "buf + 2 \<noteq> 0"
    by (metis add_eq_0_iff_both_eq_0 unat_eq_zero zero_neq_numeral)
  from a nz have p: "preconditions buf (buf + 2) 8 2"
    by (simp add: preconditions_def)
  from v u have vr: "valid_range buf 8" "valid_range (buf + 2) 8"
    by (simp_all add: valid_range_def)
  have order: "rev [0..<4] = [3, 2, 1, 0 :: nat]"
    by (simp add: upt_rec)
  have "do_conjoint_swap LEFT False bo buf (buf + 2) 8 2 m0 =
        Inr (transfers 2 buf (buf + 2) [3, 2, 1, 0],
             fold (\<lambda>i. copy_elem 2 False (buf + of_nat (i * 2)) (buf + 2 + of_nat (i * 2)))
               [3, 2, 1, 0] m0)"
    using do_conjoint_swap_fold [of 2 8 LEFT False bo buf "buf + 2" m0]
    by (simp add: order del: of_nat_mult)
  with a nz u have tr: "\<exists>m'. conjoint_swap_if_needed False bo buf (buf + 2) 8 2 m0 =
        Inr (transfers 2 buf (buf + 2) [3, 2, 1, 0], m')"
    by (simp add: conjoint_swap_if_needed_def is_aligned_unat direction_test [OF vr])
  from conjoint_swap_if_needed_moved [OF p vr, of False bo m0]
  have mv: "\<exists>tr. conjoint_swap_if_needed False bo buf (buf + 2) 8 2 m0 =
        Inr (tr, reference_copy buf (buf + 2) 8 m0)"
    by (simp add: moved_copy_reference)
  from tr mv show "conjoint_swap_if_needed False bo buf (buf + 2) 8 2 m0 =
        Inr (transfers 2 buf (buf + 2) [3, 2, 1, 0], reference_copy buf (buf + 2) 8 m0)"
    by auto
  show "conjoint_copy bo buf (buf + 2) 8 2 m0 = Inr (reference_copy buf (buf + 2) 8 m0)"
    using conjoint_copy_moved [OF p vr, of bo m0]
    by (simp add: moved_copy_reference)
  from bytes_at_moved_copy [of "buf + 2" 8 2 buf m0] a
  show "bytes_at (buf + 2) 8 (reference_copy buf (buf + 2) 8 m0) = [0, 1, 2, 3, 4, 5, 6, 7]"
    by (simp add: moved_copy_reference)
qed

theorem conjoint_direction_witness:
  "(\<exists>m'. conjoint_swap_if_needed True BigEndian 0x1000 0x0ffc 16 4 (\<lambda>a. ucast a) =
      Inr ([Load 0x1000 4, Store 0x0ffc 4, Load 0x1004 4, Store 0x1000 4,
            Load 0x1008 4, Store 0x1004 4, Load 0x100c 4, Store 0x1008 4], m')) \<and>
   (\<exists>m'. conjoint_swap_if_needed True BigEndian 0x1000 0x1000 16 4 (\<lambda>a. ucast a) =
      Inr ([Load 0x1000 4, Store 0x1000 4, Load 0x1004 4, Store 0x1004 4,
            Load 0x1008 4, Store 0x1008 4, Load 0x100c 4, Store 0x100c 4], m')) \<and>
   (\<exists>m'. conjoint_swap_if_needed True BigEndian 0x1000 0x1010 16 4 (\<lambda>a. ucast a) =
      Inr ([Load 0x1000 4, Store 0x1010 4, Load 0x1004 4, Store 0x1014 4,
            Load 0x1008 4, Store 0x1018 4, Load 0x100c 4, Store 0x101c 4], m')) \<and>
   (\<exists>m'. conjoint_swap_if_needed True BigEndian 0x1000 0x1004 16 4 (\<lambda>a. ucast a) =
      Inr ([Load 0x100c 4, Store 0x1010 4, Load 0x1008 4, Store 0x100c 4,
            Load 0x1004 4, Store 0x1008 4, Load 0x1000 4, Store 0x1004 4], m')) \<and>
   (\<exists>m'. conjoint_swap_if_needed False BigEndian 0x2000 (0x2000 + 2) 8 2
            (\<lambda>a. ucast (a - 0x2000)) =
      Inr ([Load 0x2006 2, Store 0x2008 2, Load 0x2004 2, Store 0x2006 2,
            Load 0x2002 2, Store 0x2004 2, Load 0x2000 2, Store 0x2002 2], m')) \<and>
   bytes_at (0x2000 + 2) 8 (reference_copy 0x2000 (0x2000 + 2) 8 (\<lambda>a. ucast (a - 0x2000))) =
     [0, 1, 2, 3, 4, 5, 6, 7]"
proof -
  have pre: "preconditions 0x1000 0x0ffc 16 4 \<and> valid_range 0x1000 16 \<and> valid_range 0x0ffc 16"
    "preconditions 0x1000 0x1000 16 4 \<and> valid_range 0x1000 16 \<and> valid_range 0x1000 16"
    "preconditions 0x1000 0x1010 16 4 \<and> valid_range 0x1000 16 \<and> valid_range 0x1010 16"
    "preconditions 0x1000 0x1004 16 4 \<and> valid_range 0x1000 16 \<and> valid_range 0x1004 16"
    by (simp_all add: preconditions_def valid_range_def)
  have ex: "(0x2000 :: addr) \<noteq> 0 \<and> valid_range 0x2000 10 \<and>
      bytes_at 0x2000 8 (\<lambda>a. ucast (a - 0x2000)) = [0, 1, 2, 3, 4, 5, 6, 7]"
    by (simp add: valid_range_def bytes_at_def upt_rec)
  have order: "[0..<4] = [0, 1, 2, 3 :: nat]"
    by (simp add: upt_rec)
  note c = conjoint_direction [of _ _ 16 4 True BigEndian "\<lambda>a. ucast a"
      "0x2000" "\<lambda>a. ucast (a - 0x2000)", THEN conjunct1, rule_format]
  have 1: "\<exists>m'. conjoint_swap_if_needed True BigEndian 0x1000 0x0ffc 16 4 (\<lambda>a. ucast a) =
      Inr ([Load 0x1000 4, Store 0x0ffc 4, Load 0x1004 4, Store 0x1000 4,
            Load 0x1008 4, Store 0x1004 4, Load 0x100c 4, Store 0x1008 4], m')"
    using c [OF pre(1)] by (simp add: transfers_def is_aligned_def order)
  have 2: "\<exists>m'. conjoint_swap_if_needed True BigEndian 0x1000 0x1000 16 4 (\<lambda>a. ucast a) =
      Inr ([Load 0x1000 4, Store 0x1000 4, Load 0x1004 4, Store 0x1004 4,
            Load 0x1008 4, Store 0x1008 4, Load 0x100c 4, Store 0x100c 4], m')"
    using c [OF pre(2)] by (simp add: transfers_def is_aligned_def order)
  have 3: "\<exists>m'. conjoint_swap_if_needed True BigEndian 0x1000 0x1010 16 4 (\<lambda>a. ucast a) =
      Inr ([Load 0x1000 4, Store 0x1010 4, Load 0x1004 4, Store 0x1014 4,
            Load 0x1008 4, Store 0x1018 4, Load 0x100c 4, Store 0x101c 4], m')"
    using c [OF pre(3)] by (simp add: transfers_def is_aligned_def order)
  have 4: "\<exists>m'. conjoint_swap_if_needed True BigEndian 0x1000 0x1004 16 4 (\<lambda>a. ucast a) =
      Inr ([Load 0x100c 4, Store 0x1010 4, Load 0x1008 4, Store 0x100c 4,
            Load 0x1004 4, Store 0x1008 4, Load 0x1000 4, Store 0x1004 4], m')"
    using c [OF pre(4)] by (simp add: transfers_def is_aligned_def order)
  note e = conjoint_direction [of 0 0 0 0 False BigEndian "\<lambda>a. 0"
      "0x2000" "\<lambda>a. ucast (a - 0x2000)", THEN conjunct2, rule_format, OF ex]
  have 5: "\<exists>m'. conjoint_swap_if_needed False BigEndian 0x2000 (0x2000 + 2) 8 2
            (\<lambda>a. ucast (a - 0x2000)) =
      Inr ([Load 0x2006 2, Store 0x2008 2, Load 0x2004 2, Store 0x2006 2,
            Load 0x2002 2, Store 0x2004 2, Load 0x2000 2, Store 0x2002 2], m')"
    using e by (simp add: transfers_def is_aligned_def)
  from e have 6: "bytes_at (0x2000 + 2) 8
      (reference_copy 0x2000 (0x2000 + 2) 8 (\<lambda>a. ucast (a - 0x2000))) =
     [0, 1, 2, 3, 4, 5, 6, 7]"
    by blast
  from 1 2 3 4 5 6 show ?thesis
    by blast
qed

text \<open>
  Claim C8. A call of \<^verbatim>\<open>conjoint_copy\<close> or \<^verbatim>\<open>conjoint_swap\<close> with a null address, with an
  element width outside \<open>{2, 4, 8}\<close> or with a byte count that is not a multiple of the
  element width ends in a fatal error that carries the diagnostic of the first check that
  fails, and returns no memory; a call that meets the preconditions returns a memory.
\<close>

theorem conjoint_contract_violations:
  "(\<not> preconditions src dst n w \<longrightarrow>
      (\<exists>d. conjoint_copy bo src dst n w m = Inl d) \<and>
      (\<exists>d. conjoint_swap bo src dst n w m = Inl d)) \<and>
   (preconditions src dst n w \<longrightarrow>
      (\<exists>m'. conjoint_copy bo src dst n w m = Inr m') \<and>
      (\<exists>m'. conjoint_swap bo src dst n w m = Inr m')) \<and>
   (src = 0 \<or> dst = 0 \<longrightarrow>
      conjoint_swap_if_needed swap bo src dst n w m =
        Inl (AssertFailed ''address must not be null'' [])) \<and>
   (src \<noteq> 0 \<and> dst \<noteq> 0 \<and> \<not> (w = 2 \<or> w = 4 \<or> w = 8) \<longrightarrow>
      conjoint_swap_if_needed swap bo src dst n w m =
        Inl (AssertFailed ''incorrect element size: %zu'' [w])) \<and>
   (src \<noteq> 0 \<and> dst \<noteq> 0 \<and> (w = 2 \<or> w = 4 \<or> w = 8) \<and> unat n mod unat w \<noteq> 0 \<longrightarrow>
      conjoint_swap_if_needed swap bo src dst n w m =
        Inl (AssertFailed ''byte_count %zu must be multiple of element size %zu'' [n, w]))"
proof (intro conjI impI)
  have ok: "\<exists>r. conjoint_swap_if_needed s bo src dst n w m = Inr r"
    if "preconditions src dst n w" for s
  proof -
    from that have p: "src \<noteq> 0" "dst \<noteq> 0" "w = 2 \<or> w = 4 \<or> w = 8" "unat n mod unat w = 0"
      by (simp_all add: preconditions_def)
    have "\<exists>r. do_conjoint_swap D s bo src dst n w m = Inr r" for D
      using p(3) by (auto simp: do_conjoint_swap_def)
    with p show ?thesis
      by (simp add: conjoint_swap_if_needed_def is_aligned_unat Let_def)
  qed
  have bad: "\<exists>d. conjoint_swap_if_needed s bo src dst n w m = Inl d"
    if "\<not> preconditions src dst n w" for s
    using that
    by (auto simp: preconditions_def conjoint_swap_if_needed_def is_aligned_unat)
  {
    assume "\<not> preconditions src dst n w"
    from bad [OF this, of False] show "\<exists>d. conjoint_copy bo src dst n w m = Inl d"
      unfolding conjoint_copy_def by (elim exE) simp
    from bad [OF \<open>\<not> preconditions src dst n w\<close>, of True]
    show "\<exists>d. conjoint_swap bo src dst n w m = Inl d"
      unfolding conjoint_swap_def by (elim exE) simp
  }
  {
    assume "preconditions src dst n w"
    from ok [OF this, of False] show "\<exists>m'. conjoint_copy bo src dst n w m = Inr m'"
      unfolding conjoint_copy_def by (elim exE) (simp split: prod.splits)
    from ok [OF \<open>preconditions src dst n w\<close>, of True]
    show "\<exists>m'. conjoint_swap bo src dst n w m = Inr m'"
      unfolding conjoint_swap_def by (elim exE) (simp split: prod.splits)
  }
  show "conjoint_swap_if_needed swap bo src dst n w m =
        Inl (AssertFailed ''address must not be null'' [])" if "src = 0 \<or> dst = 0"
    using that by (auto simp: conjoint_swap_if_needed_def)
  show "conjoint_swap_if_needed swap bo src dst n w m =
        Inl (AssertFailed ''incorrect element size: %zu'' [w])"
    if "src \<noteq> 0 \<and> dst \<noteq> 0 \<and> \<not> (w = 2 \<or> w = 4 \<or> w = 8)"
    using that by (simp add: conjoint_swap_if_needed_def)
  show "conjoint_swap_if_needed swap bo src dst n w m =
        Inl (AssertFailed ''byte_count %zu must be multiple of element size %zu'' [n, w])"
    if "src \<noteq> 0 \<and> dst \<noteq> 0 \<and> (w = 2 \<or> w = 4 \<or> w = 8) \<and> unat n mod unat w \<noteq> 0"
    using that by (simp add: conjoint_swap_if_needed_def is_aligned_unat)
qed

theorem conjoint_contract_violations_witness:
  "(\<exists>d. conjoint_copy LittleEndian 0x1000 0x2000 6 4 (\<lambda>a. 0) = Inl d) \<and>
   (\<exists>m'. conjoint_swap LittleEndian 0x1000 0x2000 8 4 (\<lambda>a. 0) = Inr m') \<and>
   conjoint_swap_if_needed False LittleEndian 0 0x2000 8 4 (\<lambda>a. 0) =
     Inl (AssertFailed ''address must not be null'' []) \<and>
   conjoint_swap_if_needed False LittleEndian 0x1000 0x2000 9 3 (\<lambda>a. 0) =
     Inl (AssertFailed ''incorrect element size: %zu'' [3]) \<and>
   conjoint_swap_if_needed False LittleEndian 0x1000 0x2000 6 4 (\<lambda>a. 0) =
     Inl (AssertFailed ''byte_count %zu must be multiple of element size %zu'' [6, 4])"
  using conjoint_contract_violations [of "0x1000" "0x2000" 6 4 LittleEndian "\<lambda>a. 0" False]
    conjoint_contract_violations [of "0x1000" "0x2000" 8 4 LittleEndian "\<lambda>a. 0" False]
    conjoint_contract_violations [of 0 "0x2000" 8 4 LittleEndian "\<lambda>a. 0" False]
    conjoint_contract_violations [of "0x1000" "0x2000" 9 3 LittleEndian "\<lambda>a. 0" False]
  by (simp add: preconditions_def)

subsection \<open>Frames\<close>

lemma unat_sub_elem:
  fixes x d :: addr
  assumes "i * w + w \<le> k * w" and "k * w \<le> 2 ^ 64" and "\<not> unat (x - d) < k * w"
  shows "\<not> unat (x - (d + of_nat (i * w))) < w"
proof -
  from assms have iw: "i * w \<le> 2 ^ 64" "i * w \<le> unat (x - d)" by linarith+
  have "unat (x - (d + of_nat (i * w))) = unat ((x - d) - of_nat (i * w))"
    by (simp add: diff_diff_eq)
  also have "\<dots> = unat (x - d) - i * w"
    using unat_sub_of_nat [OF iw(1), of "x - d"] iw(2) by simp
  finally show ?thesis
    using assms by linarith
qed

lemma elem_in_count:
  assumes "i < k"
  shows "i * w + w \<le> k * (w :: nat)"
proof -
  from assms have "Suc i * w \<le> k * w"
    by (meson Suc_leI mult_le_mono1)
  then show ?thesis by (simp add: ac_simps)
qed

lemma fold_copy_elem_frame:
  assumes "k * w \<le> 2 ^ 64" and "\<not> unat (x - d) < k * w" and "\<forall>i \<in> set is. i < k"
  shows "fold (\<lambda>i. copy_elem w swap (s + of_nat (i * w)) (d + of_nat (i * w))) is m x = m x"
  using assms(3)
proof (induction "is" arbitrary: m)
  case Nil
  show ?case by simp
next
  case (Cons i "is")
  then have "i < k" by simp
  from unat_sub_elem [OF elem_in_count [OF this] assms(1,2)]
  have "copy_elem w swap (s + of_nat (i * w)) (d + of_nat (i * w)) m x = m x"
    by (simp add: copy_elem_def del: of_nat_mult)
  with Cons show ?case
    by (simp del: of_nat_mult)
qed

lemma fold_store_frame:
  fixes T :: "'a::len itself"
  assumes "k * sizeof T \<le> 2 ^ 64" and "\<not> unat (x - to) < k * sizeof T"
    and "\<forall>i \<in> set is. i < k"
  shows "fold (\<lambda>i m. store bo (to + of_nat (i * sizeof T))
                       (load bo (from + of_nat (i * sizeof T)) m :: 'a word) m) is m x = m x"
  using assms(3)
proof (induction "is" arbitrary: m)
  case Nil
  show ?case by simp
next
  case (Cons i "is")
  then have "i < k" by simp
  from unat_sub_elem [OF elem_in_count [OF this] assms(1,2)]
  have "\<not> unat (x - (to + of_nat (i * sizeof T))) < sizeof TYPE('a)"
    by (simp add: sizeof_def)
  then have "store bo (to + of_nat (i * sizeof T))
               (load bo (from + of_nat (i * sizeof T)) m :: 'a word) m x = m x"
    by (simp add: store_def del: of_nat_mult)
  with Cons show ?case
    by (simp del: of_nat_mult)
qed

lemma conjoint_units_atomic_frame:
  fixes T :: "'a::len itself"
  assumes "unat count * sizeof T \<le> unat size'" and "\<not> in_range to size' x"
  shows "snd (conjoint_units_atomic T bo from to count m) x = m x"
proof -
  from assms unat_lt_addr [of size'] have "unat count * sizeof T \<le> 2 ^ 64"
    "\<not> unat (x - to) < unat count * sizeof T"
    by (simp_all add: in_range_def)
  then show ?thesis
    unfolding conjoint_units_atomic_eq snd_conv by (rule fold_store_frame) simp
qed

lemma conjoint_jbytes_frame:
  assumes "\<not> in_range to size' x"
  shows "snd (conjoint_jbytes from to size' m) x = m x"
proof -
  have "fold (\<lambda>i m. m(to + of_nat i := m (from + of_nat i))) is m x = m x"
    if "\<forall>i \<in> set is. i < unat size'" for "is"
    using that
  proof (induction "is" arbitrary: m)
    case Nil
    show ?case by simp
  next
    case (Cons i "is")
    then have "i < unat size'" by simp
    then have "in_range to size' (to + of_nat i)" by (rule in_range_offset)
    with assms have "x \<noteq> to + of_nat i" by auto
    with Cons show ?case by simp
  qed
  then show ?thesis
    by (simp add: conjoint_jbytes_eq)
qed

lemma unat_div_numeral_mult:
  fixes n :: addr
  shows "unat (n div 8) * 8 \<le> unat n" "unat (n div 4) * 4 \<le> unat n" "unat (n div 2) * 2 \<le> unat n"
  by (simp_all add: unat_div)

lemma conjoint_memory_atomic_frame:
  assumes "\<not> in_range to size' x"
  shows "conjoint_memory_atomic bo from to size' m x = m x"
proof -
  have 8: "snd (conjoint_jlongs_atomic bo from to (size' div 8) m) x = m x"
    unfolding conjoint_jlongs_atomic_def
    by (rule conjoint_units_atomic_frame [OF _ assms]) (simp add: sizeof_def unat_div_numeral_mult)
  have 4: "snd (conjoint_jints_atomic bo from to (size' div 4) m) x = m x"
    unfolding conjoint_jints_atomic_def
    by (rule conjoint_units_atomic_frame [OF _ assms]) (simp add: sizeof_def unat_div_numeral_mult)
  have 2: "snd (conjoint_jshorts_atomic bo from to (size' div 2) m) x = m x"
    unfolding conjoint_jshorts_atomic_def
    by (rule conjoint_units_atomic_frame [OF _ assms]) (simp add: sizeof_def unat_div_numeral_mult)
  have 1: "snd (conjoint_jbytes from to size' m) x = m x"
    by (rule conjoint_jbytes_frame [OF assms])
  show ?thesis
    by (simp add: conjoint_memory_atomic_def conjoint_memory_atomic_traced_def Let_def 8 4 2 1)
qed

lemma conjoint_memory_atomic_empty: "conjoint_memory_atomic bo from to 0 m = m"
  by (simp add: conjoint_memory_atomic_def conjoint_memory_atomic_traced_def
      conjoint_jlongs_atomic_def conjoint_jints_atomic_def
      conjoint_jshorts_atomic_def conjoint_units_atomic_eq conjoint_jbytes_eq Let_def)

lemma conjoint_swap_if_needed_Inr:
  assumes "conjoint_swap_if_needed swap bo src dst n w m = Inr r"
  shows "preconditions src dst n w"
  using assms
  by (auto simp: conjoint_swap_if_needed_def preconditions_def is_aligned_unat
      split: if_splits)

lemma conjoint_swap_if_needed_frame:
  assumes r: "conjoint_swap_if_needed swap bo src dst n w m = Inr (tr, m')"
    and x: "\<not> in_range dst n x"
  shows "m' x = m x"
proof -
  from conjoint_swap_if_needed_Inr [OF r]
  have p: "src \<noteq> 0" "dst \<noteq> 0" "w = 2 \<or> w = 4 \<or> w = 8" "unat n mod unat w = 0"
    by (simp_all add: preconditions_def)
  let ?k = "unat n div unat w"
  from p(4) have k: "?k * unat w = unat n"
    by (simp add: mod_0_imp_dvd)
  with unat_lt_addr [of n] have b: "?k * unat w \<le> 2 ^ 64" by simp
  from x k have o: "\<not> unat (x - dst) < ?k * unat w"
    by (simp add: in_range_def)
  have "\<exists>D. conjoint_swap_if_needed swap bo src dst n w m =
      do_conjoint_swap D swap bo src dst n w m"
    using p by (auto simp: conjoint_swap_if_needed_def is_aligned_unat Let_def)
  then obtain D where "conjoint_swap_if_needed swap bo src dst n w m =
      do_conjoint_swap D swap bo src dst n w m" ..
  with r do_conjoint_swap_fold [OF p(3,4), of D swap bo src dst m]
  have "m' = fold (\<lambda>i. copy_elem (unat w) swap (src + of_nat (i * unat w))
                          (dst + of_nat (i * unat w)))
                (case D of RIGHT \<Rightarrow> [0..<?k] | LEFT \<Rightarrow> rev [0..<?k]) m"
    by simp
  moreover have "\<forall>i \<in> set (case D of RIGHT \<Rightarrow> [0..<?k] | LEFT \<Rightarrow> rev [0..<?k]). i < ?k"
    by (cases D) simp_all
  ultimately show ?thesis
    using fold_copy_elem_frame [OF b o] by simp
qed

lemma not_in_range_empty: "\<not> in_range p 0 x"
  by (simp add: in_range_def)

text \<open>
  Claim C9. Each of the four operations changes no byte outside the destination range:
  \<^verbatim>\<open>conjoint_memory_atomic\<close> and \<^verbatim>\<open>fill_to_memory_atomic\<close> for all arguments,
  \<^verbatim>\<open>conjoint_copy\<close> and \<^verbatim>\<open>conjoint_swap\<close> whenever they return a memory. So the source
  bytes stay as they were when no source address lies in the destination range. With
  size 0 each operation returns the memory it was given.
\<close>

theorem operations_frame:
  "(\<forall>x. \<not> in_range to size' x \<longrightarrow> conjoint_memory_atomic bo from to size' m x = m x) \<and>
   (\<exists>m'. fill_to_memory_atomic bo to size' v m = Some m' \<and>
         (\<forall>x. \<not> in_range to size' x \<longrightarrow> m' x = m x)) \<and>
   (\<forall>m'. conjoint_copy bo src dst n w m = Inr m' \<longrightarrow>
         (\<forall>x. \<not> in_range dst n x \<longrightarrow> m' x = m x) \<and>
         ((\<forall>j < unat n. \<not> in_range dst n (src + of_nat j)) \<longrightarrow>
            bytes_at src (unat n) m' = bytes_at src (unat n) m)) \<and>
   (\<forall>m'. conjoint_swap bo src dst n w m = Inr m' \<longrightarrow>
         (\<forall>x. \<not> in_range dst n x \<longrightarrow> m' x = m x) \<and>
         ((\<forall>j < unat n. \<not> in_range dst n (src + of_nat j)) \<longrightarrow>
            bytes_at src (unat n) m' = bytes_at src (unat n) m)) \<and>
   conjoint_memory_atomic bo from to 0 m = m \<and>
   fill_to_memory_atomic bo to 0 v m = Some m \<and>
   (preconditions src dst 0 w \<longrightarrow>
      conjoint_copy bo src dst 0 w m = Inr m \<and> conjoint_swap bo src dst 0 w m = Inr m)"
proof -
  have frame: "(\<forall>x. \<not> in_range dst n x \<longrightarrow> m' x = m x) \<and>
      ((\<forall>j < unat n. \<not> in_range dst n (src + of_nat j)) \<longrightarrow>
         bytes_at src (unat n) m' = bytes_at src (unat n) m)"
    if "conjoint_swap_if_needed swap bo src dst n w m = Inr (tr, m')" for swap tr m'
    using conjoint_swap_if_needed_frame [OF that]
    by (simp add: bytes_at_def)
  have copy: "\<exists>tr. conjoint_swap_if_needed False bo src dst n w m = Inr (tr, m')"
    if "conjoint_copy bo src dst n w m = Inr m'" for m'
    using that by (simp add: conjoint_copy_def split: sum.splits prod.splits)
  have swap: "\<exists>tr. conjoint_swap_if_needed True bo src dst n w m = Inr (tr, m')"
    if "conjoint_swap bo src dst n w m = Inr m'" for m'
    using that by (simp add: conjoint_swap_def split: sum.splits prod.splits)
  have empty: "conjoint_swap_if_needed swap bo src dst 0 w m = Inr ([], m)"
    if p: "preconditions src dst 0 w" for swap
  proof -
    from p have "w = 2 \<or> w = 4 \<or> w = 8" "unat (0 :: addr) mod unat w = 0"
      by (simp_all add: preconditions_def)
    from do_conjoint_swap_fold [OF this]
    have "do_conjoint_swap D swap bo src dst 0 w m = Inr ([], m)" for D
      by (cases D) (simp_all add: transfers_def)
    with p show ?thesis
      by (simp add: conjoint_swap_if_needed_def preconditions_def is_aligned_unat)
  qed
  have fill: "fill_to_memory_atomic bo to 0 v m = Some m"
    by (simp add: fill_to_memory_atomic_result not_in_range_empty)
  have 1: "\<forall>x. \<not> in_range to size' x \<longrightarrow> conjoint_memory_atomic bo from to size' m x = m x"
    by (simp add: conjoint_memory_atomic_frame)
  have 2: "\<exists>m'. fill_to_memory_atomic bo to size' v m = Some m' \<and>
         (\<forall>x. \<not> in_range to size' x \<longrightarrow> m' x = m x)"
    by (simp add: fill_to_memory_atomic_result)
  have 3: "\<forall>m'. conjoint_copy bo src dst n w m = Inr m' \<longrightarrow>
         (\<forall>x. \<not> in_range dst n x \<longrightarrow> m' x = m x) \<and>
         ((\<forall>j < unat n. \<not> in_range dst n (src + of_nat j)) \<longrightarrow>
            bytes_at src (unat n) m' = bytes_at src (unat n) m)"
    using copy frame by blast
  have 4: "\<forall>m'. conjoint_swap bo src dst n w m = Inr m' \<longrightarrow>
         (\<forall>x. \<not> in_range dst n x \<longrightarrow> m' x = m x) \<and>
         ((\<forall>j < unat n. \<not> in_range dst n (src + of_nat j)) \<longrightarrow>
            bytes_at src (unat n) m' = bytes_at src (unat n) m)"
    using swap frame by blast
  have 5: "conjoint_memory_atomic bo from to 0 m = m"
    by (rule conjoint_memory_atomic_empty)
  have 6: "preconditions src dst 0 w \<longrightarrow>
      conjoint_copy bo src dst 0 w m = Inr m \<and> conjoint_swap bo src dst 0 w m = Inr m"
    by (simp add: empty conjoint_copy_def conjoint_swap_def)
  from 1 2 3 4 5 fill 6 show ?thesis
    by (intro conjI)
qed

theorem operations_frame_witness:
  "(\<exists>m'. conjoint_copy LittleEndian 0x3000 0x2000 8 4 (\<lambda>a. ucast a) = Inr m' \<and>
         m' 0x2008 = ucast (0x2008 :: addr) \<and>
         bytes_at 0x3000 (unat (8 :: addr)) m' = bytes_at 0x3000 (unat (8 :: addr)) (\<lambda>a. ucast a)) \<and>
   conjoint_memory_atomic LittleEndian 0x3000 0x2000 8 (\<lambda>a. ucast a) 0x2008 = ucast (0x2008 :: addr) \<and>
   conjoint_swap LittleEndian 0x3000 0x2000 0 4 (\<lambda>a. ucast a) = Inr (\<lambda>a. ucast a)"
proof -
  have p: "preconditions 0x3000 0x2000 8 4" "preconditions 0x3000 0x2000 0 4"
    by (simp_all add: preconditions_def)
  have o: "\<not> in_range 0x2000 8 0x2008"
    by (simp add: in_range_def)
  have s: "\<forall>j < unat (8 :: addr). \<not> in_range 0x2000 8 (0x3000 + of_nat j)"
  proof (intro allI impI)
    fix j :: nat
    assume "j < unat (8 :: addr)"
    then have j: "j < 8" by simp
    then have "unat (of_nat j :: addr) = j"
      by (simp add: unat_of_nat_addr)
    then have "unat ((0x1000 :: addr) + of_nat j) = 0x1000 + j"
      using j by (simp add: unat_add_lem [THEN iffD1])
    moreover have "(0x3000 :: addr) + of_nat j - 0x2000 = 0x1000 + of_nat j"
      by simp
    ultimately have "unat ((0x3000 :: addr) + of_nat j - 0x2000) = 0x1000 + j"
      by (simp only:)
    then show "\<not> in_range 0x2000 8 (0x3000 + of_nat j)"
      by (simp only: in_range_def) simp
  qed
  obtain m' where m': "conjoint_copy LittleEndian 0x3000 0x2000 8 4 (\<lambda>a. ucast a) = Inr m'"
    using p(1)
      conjoint_copy_moved [of "0x3000" "0x2000" 8 4 LittleEndian "\<lambda>a. ucast a"]
    by (simp add: valid_range_def)
  note F = operations_frame [of "0x2000" 8 LittleEndian "0x3000" "\<lambda>a. ucast a" 0
      "0x3000" "0x2000" 8 4]
  note E = operations_frame [of "0x2000" 8 LittleEndian "0x3000" "\<lambda>a. ucast a" 0
      "0x3000" "0x2000" 0 4]
  from F o have 1: "conjoint_memory_atomic LittleEndian 0x3000 0x2000 8 (\<lambda>a. ucast a) 0x2008 =
      ucast (0x2008 :: addr)"
    by blast
  from F m' have "(\<forall>x. \<not> in_range 0x2000 8 x \<longrightarrow> m' x = ucast x) \<and>
      ((\<forall>j < unat (8 :: addr). \<not> in_range 0x2000 8 (0x3000 + of_nat j)) \<longrightarrow>
         bytes_at 0x3000 (unat (8 :: addr)) m' = bytes_at 0x3000 (unat (8 :: addr)) (\<lambda>a. ucast a))"
    by blast
  with o s have 2: "m' 0x2008 = ucast (0x2008 :: addr)"
    "bytes_at 0x3000 (unat (8 :: addr)) m' = bytes_at 0x3000 (unat (8 :: addr)) (\<lambda>a. ucast a)"
    by blast+
  from E p(2) have 3: "conjoint_swap LittleEndian 0x3000 0x2000 0 4 (\<lambda>a. ucast a) =
      Inr (\<lambda>a. ucast a)"
    by blast
  from m' 1 2 3 show ?thesis
    by blast
qed

end
